theory Spec2Isabelle
  imports Main
begin

section \<open>Errors and programs over a mutable state\<close>

text \<open>
  The source raises plain \<^verbatim>\<open>Exception\<close> objects that differ in their message; the
  constructors below keep them apart. \<open>ValueError\<close> is what \<^verbatim>\<open>int(port_val, 2)\<close> raises
  on a string that is no binary numeral, \<open>UnknownPort\<close> is the simulation handle
  refusing a port name, \<open>HookError\<close> is whatever a caller's hook raises.
\<close>

datatype error =
    SignalNotFoundError string
  | NegativeValueUnsupportedError
  | SimulationStalledError
  | ValueError
  | UnknownPort string
  | HookError string

text \<open>
  Python mutates the simulation handle and the io dictionary in place, and a raised
  exception leaves them as they were at that moment. A program therefore returns the
  state in both cases: \<open>(Inl e, s)\<close> is the exception \<open>e\<close> raised in state \<open>s\<close>.
\<close>

type_synonym ('s, 'a) prog = "'s \<Rightarrow> (error + 'a) \<times> 's"

definition succeed :: "'a \<Rightarrow> ('s, 'a) prog" where
  "succeed x = (\<lambda>s. (Inr x, s))"

definition pbind :: "('s, 'a) prog \<Rightarrow> ('a \<Rightarrow> ('s, 'b) prog) \<Rightarrow> ('s, 'b) prog" where
  "pbind m f = (\<lambda>s. case m s of (Inl e, s') \<Rightarrow> (Inl e, s') | (Inr x, s') \<Rightarrow> f x s')"

text \<open>A block of statements: each runs in the state the previous one left.\<close>

fun sequence :: "('s, unit) prog list \<Rightarrow> ('s, unit) prog" where
  "sequence [] = succeed ()"
| "sequence (m # ms) = pbind m (\<lambda>_. sequence ms)"

section \<open>Python built-ins used by the signal accessors\<close>

text \<open>
  A \<open>char\<close> is a code point below 256 (port names are HDL identifiers, port values are
  strings of logic-value characters). On these code points \<^verbatim>\<open>str.lower()\<close> maps \<open>A\<close>..\<open>Z\<close>
  to \<open>a\<close>..\<open>z\<close> and the accented capitals U+00C0..U+00DE, except the multiplication sign
  U+00D7, to the letter 32 places up, and keeps every other character.
\<close>

definition lower_char :: "char \<Rightarrow> char" where
  "lower_char c =
     (case map_of (zip ''ABCDEFGHIJKLMNOPQRSTUVWXYZ'' ''abcdefghijklmnopqrstuvwxyz'') c of
        Some l \<Rightarrow> l
      | None \<Rightarrow>
          (let n = (of_char c :: nat)
           in if 192 \<le> n \<and> n \<le> 222 \<and> n \<noteq> 215 then char_of (n + 32) else c))"

definition lower :: "string \<Rightarrow> string" where
  "lower s = map lower_char s"

text \<open>
  \<^verbatim>\<open>int(s, 2)\<close>: surrounding whitespace (tab, LF, VT, FF, CR, space, and of the code
  points from 128 on, NEL U+0085 and the no-break space U+00A0) is skipped, then an
  optional sign, then an optional \<^verbatim>\<open>0b\<close>/\<^verbatim>\<open>0B\<close> prefix that may be followed by one
  underscore, then binary digits in which single underscores may stand between digits.
  Anything else raises \<^verbatim>\<open>ValueError\<close>.
\<close>

definition py_isspace :: "char \<Rightarrow> bool" where
  "py_isspace c =
     (let n = (of_char c :: nat) in (9 \<le> n \<and> n \<le> 13) \<or> n = 32 \<or> n = 133 \<or> n = 160)"

definition strip :: "string \<Rightarrow> string" where
  "strip s = rev (dropWhile py_isspace (rev (dropWhile py_isspace s)))"

definition bin_digit :: "char \<Rightarrow> bool" where
  "bin_digit c = (c = CHR ''0'' \<or> c = CHR ''1'')"

text \<open>
  The digit scanner of CPython: \<open>prev\<close> tells whether the previous character was a
  digit, so a leading, a doubled and a trailing underscore are all refused, and so is
  an empty digit string.
\<close>

fun digits_ok :: "bool \<Rightarrow> string \<Rightarrow> bool" where
  "digits_ok prev [] = prev"
| "digits_ok prev (c # cs) =
     (if bin_digit c then digits_ok True cs
      else if c = CHR ''_'' \<and> prev then digits_ok False cs
      else False)"

fun digits_val :: "nat \<Rightarrow> string \<Rightarrow> nat" where
  "digits_val acc [] = acc"
| "digits_val acc (c # cs) =
     digits_val (if c = CHR ''_'' then acc else 2 * acc + (if c = CHR ''1'' then 1 else 0)) cs"

definition strip_sign :: "string \<Rightarrow> bool \<times> string" where
  "strip_sign s =
     (case s of
        [] \<Rightarrow> (False, s)
      | c # r \<Rightarrow> if c = CHR ''-'' then (True, r) else if c = CHR ''+'' then (False, r)
                 else (False, s))"

definition strip_prefix_0b :: "string \<Rightarrow> string" where
  "strip_prefix_0b s =
     (case s of
        z # b # r \<Rightarrow>
          if z = CHR ''0'' \<and> (b = CHR ''b'' \<or> b = CHR ''B'')
          then (case r of [] \<Rightarrow> r | u # r' \<Rightarrow> if u = CHR ''_'' then r' else r)
          else s
      | _ \<Rightarrow> s)"

definition py_int2 :: "string \<Rightarrow> error + int" where
  "py_int2 s =
     (let (neg, u) = strip_sign (strip s);
          ds = strip_prefix_0b u
      in if digits_ok False ds
         then Inr (if neg then - int (digits_val 0 ds) else int (digits_val 0 ds))
         else Inl ValueError)"

text \<open>
  The binary digits of a natural number, most significant first, as the \<^verbatim>\<open>b\<close>
  presentation type prints them: \<^verbatim>\<open>0\<close> is \<^verbatim>\<open>"0"\<close>.
\<close>

fun bin_str :: "nat \<Rightarrow> string" where
  "bin_str n =
     (if n < 2 then [if n = 0 then CHR ''0'' else CHR ''1'']
      else bin_str (n div 2) @ [if n mod 2 = 0 then CHR ''0'' else CHR ''1''])"

declare bin_str.simps [simp del]

text \<open>
  \<^verbatim>\<open>f"{v:0{w}b}"\<close>: sign-aware zero padding to at least \<open>w\<close> characters; a longer
  numeral is printed in full.
\<close>

definition format_0b :: "int \<Rightarrow> nat \<Rightarrow> string" where
  "format_0b v w =
     (let ds = bin_str (nat \<bar>v\<bar>) in
      if v < 0 then CHR ''-'' # replicate (w - 1 - length ds) (CHR ''0'') @ ds
      else replicate (w - length ds) (CHR ''0'') @ ds)"

text \<open>
  The slice \<^verbatim>\<open>s[-n:]\<close> for \<open>n \<ge> 0\<close>: the last \<open>n\<close> characters, the whole string when it
  is shorter, and, since \<^verbatim>\<open>-0\<close> is \<^verbatim>\<open>0\<close>, the whole string when \<open>n = 0\<close>.
\<close>

definition py_suffix :: "nat \<Rightarrow> string \<Rightarrow> string" where
  "py_suffix n s = (if n = 0 then s else drop (length s - n) s)"

section \<open>The simulation handle\<close>

text \<open>
  Modelled from the spec: the simulation handle (\<^verbatim>\<open>pyxsi.XSI\<close>, a compiled extension
  that is not part of the Python sources). The spec gives it four capabilities:
  enumerate ports by index, read a port's current value as a fixed-width binary
  string, write a port's value from such a string, and advance simulated time.
  A handle is the list of its ports (name and current value, in index order) and the
  hidden state \<open>design\<close> of the simulated design. \<open>trace\<close> records every call that
  drives the handle, so that claims about which signals are written, and when, can be
  stated; no operation reads it.
\<close>

datatype event = SetPort string string | Run int

record 'd xsi =
  ports :: "(string \<times> string) list"
  design :: 'd
  trace :: "event list"

text \<open>
  The simulated design: what advancing time by \<open>t\<close> does to the port values and to the
  design's hidden state.
\<close>

type_synonym 'd dut = "int \<Rightarrow> (string \<times> string) list \<times> 'd \<Rightarrow> (string \<times> string) list \<times> 'd"

definition get_port_count :: "'d xsi \<Rightarrow> nat" where
  "get_port_count sim = length (ports sim)"

definition get_port_name :: "'d xsi \<Rightarrow> nat \<Rightarrow> string" where
  "get_port_name sim i = fst (ports sim ! i)"

definition get_port_value :: "'d xsi \<Rightarrow> string \<Rightarrow> error + string" where
  "get_port_value sim name =
     (case map_of (ports sim) name of None \<Rightarrow> Inl (UnknownPort name) | Some v \<Rightarrow> Inr v)"

fun assign_port :: "string \<Rightarrow> string \<Rightarrow> (string \<times> string) list \<Rightarrow> (string \<times> string) list" where
  "assign_port name v [] = []"
| "assign_port name v (p # ps) = (if fst p = name then (name, v) # ps else p # assign_port name v ps)"

definition set_port_value :: "string \<Rightarrow> string \<Rightarrow> ('d xsi, unit) prog" where
  "set_port_value name v sim =
     (if name \<in> set (map fst (ports sim))
      then (Inr (), sim\<lparr>ports := assign_port name v (ports sim),
                        trace := trace sim @ [SetPort name v]\<rparr>)
      else (Inl (UnknownPort name), sim))"

definition sim_run :: "'d dut \<Rightarrow> int \<Rightarrow> ('d xsi, unit) prog" where
  "sim_run D t sim =
     (let (ps, d) = D t (ports sim, design sim)
      in (Inr (), sim\<lparr>ports := ps, design := d, trace := trace sim @ [Run t]\<rparr>))"

section \<open>Signal accessors\<close>

text \<open>
  \<^verbatim>\<open>_find_signal\<close>, \<^verbatim>\<open>_read_signal\<close> and \<^verbatim>\<open>_write_signal\<close> of the source, without the
  leading underscore. Reading does not change the handle, so the two readers are plain
  functions of it; \<^verbatim>\<open>_write_signal\<close> resolves the name, takes the width from the
  current value, refuses a negative value, and only then writes.
\<close>

definition find_signal :: "'d xsi \<Rightarrow> string \<Rightarrow> error + string" where
  "find_signal sim signal_name =
     (let signal_list = map (get_port_name sim) [0..<get_port_count sim] in
      if signal_name \<in> set signal_list then Inr signal_name
      else if lower signal_name \<in> set signal_list then Inr (lower signal_name)
      else Inl (SignalNotFoundError signal_name))"

definition read_signal :: "'d xsi \<Rightarrow> string \<Rightarrow> error + int" where
  "read_signal sim signal_name =
     (case find_signal sim signal_name of
        Inl e \<Rightarrow> Inl e
      | Inr name \<Rightarrow>
          (case get_port_value sim name of
             Inl e \<Rightarrow> Inl e
           | Inr port_val \<Rightarrow> py_int2 port_val))"

definition write_signal :: "string \<Rightarrow> int \<Rightarrow> ('d xsi, unit) prog" where
  "write_signal signal_name signal_value sim =
     (case find_signal sim signal_name of
        Inl e \<Rightarrow> (Inl e, sim)
      | Inr name \<Rightarrow>
          (case get_port_value sim name of
             Inl e \<Rightarrow> (Inl e, sim)
           | Inr cur \<Rightarrow>
               let signal_len = length cur in
               if signal_value < 0 then (Inl NegativeValueUnsupportedError, sim)
               else set_port_value name
                      (py_suffix signal_len (format_0b signal_value signal_len)) sim))"

text \<open>
  The string that \<open>write_signal\<close> hands to the handle for a non-negative value, on a
  port whose current value has \<open>w\<close> characters.
\<close>

definition encode :: "nat \<Rightarrow> int \<Rightarrow> string" where
  "encode w v = py_suffix w (format_0b v w)"

section \<open>Edge toggler\<close>

text \<open>
  A Python \<^verbatim>\<open>dict\<close> is the list of its entries in insertion order, with each key at
  most once. \<^verbatim>\<open>d[k] = v\<close> overwrites the entry of \<open>k\<close> where it stands, or appends a
  new entry; a loop over the keys that reads \<^verbatim>\<open>d[k]\<close> visits the entries in order.
\<close>

fun dict_set :: "'k \<Rightarrow> 'v \<Rightarrow> ('k \<times> 'v) list \<Rightarrow> ('k \<times> 'v) list" where
  "dict_set k v [] = [(k, v)]"
| "dict_set k v (p # ps) = (if fst p = k then (k, v) # ps else p # dict_set k v ps)"

text \<open>
  The design \<open>D\<close> stands for what \<^verbatim>\<open>sim.run\<close> does; the clock name and the pending
  writes, which have defaults in the source, are always passed.
\<close>

definition comb_update_and_trace :: "('d xsi, unit) prog" where
  "comb_update_and_trace = succeed ()"

definition toggle_neg_edge :: "'d dut \<Rightarrow> string \<Rightarrow> ('d xsi, unit) prog" where
  "toggle_neg_edge D clk_name = sequence [write_signal clk_name 0, sim_run D 5000]"

definition toggle_pos_edge :: "'d dut \<Rightarrow> string \<Rightarrow> (string \<times> int) list \<Rightarrow> ('d xsi, unit) prog" where
  "toggle_pos_edge D clk_name signals_to_write =
     sequence
       [write_signal clk_name 1,
        sim_run D 5000,
        if signals_to_write \<noteq> []
        then sequence (map (\<lambda>(sig, v). write_signal sig v) signals_to_write)
        else succeed (),
        comb_update_and_trace]"

definition toggle_clk :: "'d dut \<Rightarrow> string \<Rightarrow> (string \<times> int) list \<Rightarrow> ('d xsi, unit) prog" where
  "toggle_clk D clk_name signals_to_write =
     sequence [toggle_neg_edge D clk_name, toggle_pos_edge D clk_name signals_to_write]"

section \<open>Reset sequencer\<close>

definition reset_rtlsim :: "'d dut \<Rightarrow> string \<Rightarrow> bool \<Rightarrow> string \<Rightarrow> ('d xsi, unit) prog" where
  "reset_rtlsim D rst_name active_low clk_name =
     sequence
       ([write_signal clk_name 0,
         write_signal rst_name (if active_low then 0 else 1)]
        @ replicate 2 (toggle_clk D clk_name [])
        @ [toggle_clk D clk_name (dict_set rst_name (if active_low then 1 else 0) []),
           toggle_clk D clk_name []])"

section \<open>Streaming handshake engine\<close>

text \<open>
  The state of one call of \<^verbatim>\<open>rtlsim_multi_io\<close>: the handle, the two sides of
  \<^verbatim>\<open>io_dict\<close> (both mutated in place, so both are part of what the caller sees
  afterwards) and the local variables of the loop.
\<close>

record 'd rtlsim =
  xsim :: "'d xsi"
  io_inputs :: "(string \<times> int list) list"
  io_outputs :: "(string \<times> int list) list"
  total_cycle_count :: int
  output_count :: int
  old_output_count :: int
  no_change_count :: int
  signals_to_write :: "(string \<times> int) list"

definition on_sim :: "('d xsi, 'a) prog \<Rightarrow> ('d rtlsim, 'a) prog" where
  "on_sim m st = (case m (xsim st) of (r, s') \<Rightarrow> (r, st\<lparr>xsim := s'\<rparr>))"

text \<open>
  A hook is caller code run on the handle; \<^verbatim>\<open>None\<close> is skipped (\<^verbatim>\<open>if hook_preclk:\<close>).
\<close>

type_synonym 'd hook = "('d xsi, unit) prog option"

definition run_hook :: "'d hook \<Rightarrow> ('d xsi, unit) prog" where
  "run_hook h = (case h of None \<Rightarrow> succeed () | Some f \<Rightarrow> f)"

text \<open>
  The condition \<^verbatim>\<open>_read_signal(..."TREADY") == 1 and _read_signal(..."TVALID") == 1\<close>:
  \<^verbatim>\<open>and\<close> does not read \<^verbatim>\<open>TVALID\<close> when \<^verbatim>\<open>TREADY\<close> is not 1.
\<close>

definition ready_and_valid :: "'d xsi \<Rightarrow> string \<Rightarrow> error + bool" where
  "ready_and_valid s signal_name =
     (case read_signal s (signal_name @ ''TREADY'') of
        Inl e \<Rightarrow> Inl e
      | Inr r \<Rightarrow>
          if r = 1
          then (case read_signal s (signal_name @ ''TVALID'') of
                  Inl e \<Rightarrow> Inl e
                | Inr v \<Rightarrow> Inr (v = 1))
          else Inr False)"

text \<open>
  The loop over the input channels (read phase). An exception leaves the entries
  already visited updated and the others as they were.
\<close>

fun read_inputs ::
  "'d xsi \<Rightarrow> string \<Rightarrow> (string \<times> int list) list \<Rightarrow> (error + unit) \<times> (string \<times> int list) list" where
  "read_inputs s sname [] = (Inr (), [])"
| "read_inputs s sname ((inp, inputs) # rest) =
     (case ready_and_valid s (inp @ sname) of
        Inl e \<Rightarrow> (Inl e, (inp, inputs) # rest)
      | Inr accepted \<Rightarrow>
          (case read_inputs s sname rest of
             (r, rest') \<Rightarrow> (r, (inp, if accepted then drop 1 inputs else inputs) # rest')))"

text \<open>The loop over the output channels; the second component counts the words read.\<close>

fun read_outputs ::
  "'d xsi \<Rightarrow> string \<Rightarrow> (string \<times> int list) list \<Rightarrow> int
     \<Rightarrow> (error + unit) \<times> (string \<times> int list) list \<times> int" where
  "read_outputs s sname [] n = (Inr (), [], n)"
| "read_outputs s sname ((outp, outputs) # rest) n =
     (case ready_and_valid s (outp @ sname) of
        Inl e \<Rightarrow> (Inl e, (outp, outputs) # rest, n)
      | Inr accepted \<Rightarrow>
          if accepted
          then (case read_signal s (outp @ sname @ ''TDATA'') of
                  Inl e \<Rightarrow> (Inl e, (outp, outputs) # rest, n)
                | Inr d \<Rightarrow>
                    (case read_outputs s sname rest (n + 1) of
                       (r, rest', n') \<Rightarrow> (r, (outp, outputs @ [d]) # rest', n')))
          else (case read_outputs s sname rest n of
                  (r, rest', n') \<Rightarrow> (r, (outp, outputs) # rest', n')))"

text \<open>The loop that stages \<^verbatim>\<open>TVALID\<close> and \<^verbatim>\<open>TDATA\<close> of every input channel.\<close>

fun stage_inputs ::
  "string \<Rightarrow> (string \<times> int list) list \<Rightarrow> (string \<times> int) list \<Rightarrow> (string \<times> int) list" where
  "stage_inputs sname [] stw = stw"
| "stage_inputs sname ((inp, inputs) # rest) stw =
     stage_inputs sname rest
       (dict_set (inp @ sname @ ''TDATA'') (case inputs of [] \<Rightarrow> 0 | x # _ \<Rightarrow> x)
          (dict_set (inp @ sname @ ''TVALID'') (if length inputs > 0 then 1 else 0) stw))"

definition read_phase_inputs :: "string \<Rightarrow> ('d rtlsim, unit) prog" where
  "read_phase_inputs sname st =
     (case read_inputs (xsim st) sname (io_inputs st) of
        (r, ins) \<Rightarrow> (r, st\<lparr>io_inputs := ins\<rparr>))"

definition read_phase_outputs :: "string \<Rightarrow> ('d rtlsim, unit) prog" where
  "read_phase_outputs sname st =
     (case read_outputs (xsim st) sname (io_outputs st) (output_count st) of
        (r, outs, n) \<Rightarrow> (r, st\<lparr>io_outputs := outs, output_count := n\<rparr>))"

definition write_prep :: "string \<Rightarrow> ('d rtlsim, unit) prog" where
  "write_prep sname st =
     (Inr (), st\<lparr>signals_to_write := stage_inputs sname (io_inputs st) (signals_to_write st)\<rparr>)"

text \<open>One pass through the loop body, up to and including the post-clock hook.\<close>

definition cycle :: "'d dut \<Rightarrow> 'd hook \<Rightarrow> 'd hook \<Rightarrow> string \<Rightarrow> ('d rtlsim, unit) prog" where
  "cycle D hook_preclk hook_postclk sname =
     sequence
       [on_sim (run_hook hook_preclk),
        on_sim (toggle_neg_edge D ''ap_clk''),
        read_phase_inputs sname,
        read_phase_outputs sname,
        write_prep sname,
        (\<lambda>st. on_sim (toggle_pos_edge D ''ap_clk'' (signals_to_write st)) st),
        on_sim (run_hook hook_postclk)]"

text \<open>The counter updates that follow: the cycle counter and the liveness counter.\<close>

definition count_cycle :: "'d rtlsim \<Rightarrow> 'd rtlsim" where
  "count_cycle st =
     (let st1 = st\<lparr>total_cycle_count := total_cycle_count st + 1\<rparr> in
      if output_count st1 = old_output_count st1
      then st1\<lparr>no_change_count := no_change_count st1 + 1\<rparr>
      else st1\<lparr>no_change_count := 0, old_output_count := output_count st1\<rparr>)"

text \<open>
  The \<^verbatim>\<open>while not (output_done)\<close> loop. Nothing bounds the number of passes (a
  negative threshold never fires, and the output count can step over the target), so
  the loop is a partial function: \<open>None\<close> is a run that never returns.
\<close>

partial_function (option) rtlsim_loop ::
  "'d dut \<Rightarrow> 'd hook \<Rightarrow> 'd hook \<Rightarrow> string \<Rightarrow> int \<Rightarrow> int \<Rightarrow> 'd rtlsim
     \<Rightarrow> ((error + int) \<times> 'd rtlsim) option" where
  "rtlsim_loop D hook_preclk hook_postclk sname num_out_values liveness_threshold st =
     (case cycle D hook_preclk hook_postclk sname st of
        (Inl e, st') \<Rightarrow> Some (Inl e, st')
      | (Inr _, st') \<Rightarrow>
          let st2 = count_cycle st';
              output_done = (output_count st2 = num_out_values)
          in if no_change_count st2 = liveness_threshold
             then Some (Inl SimulationStalledError, st2)
             else if output_done then Some (Inr (total_cycle_count st2), st2)
             else rtlsim_loop D hook_preclk hook_postclk sname num_out_values
                    liveness_threshold st2)"

definition init_state ::
  "'d xsi \<Rightarrow> (string \<times> int list) list \<Rightarrow> (string \<times> int list) list \<Rightarrow> 'd rtlsim" where
  "init_state sim ins outs =
     \<lparr>xsim = sim, io_inputs = ins, io_outputs = outs, total_cycle_count = 0,
      output_count = 0, old_output_count = 0, no_change_count = 0, signals_to_write = []\<rparr>"

definition setup_outputs :: "string \<Rightarrow> ('d rtlsim, unit) prog" where
  "setup_outputs sname st =
     on_sim (sequence (map (\<lambda>outp. write_signal (outp @ sname @ ''TREADY'') 1)
                           (map fst (io_outputs st)))) st"

definition rtlsim_multi_io ::
  "'d dut \<Rightarrow> 'd xsi \<Rightarrow> (string \<times> int list) list \<Rightarrow> (string \<times> int list) list \<Rightarrow> int \<Rightarrow> string
     \<Rightarrow> int \<Rightarrow> 'd hook \<Rightarrow> 'd hook \<Rightarrow> ((error + int) \<times> 'd rtlsim) option" where
  "rtlsim_multi_io D sim ins outs num_out_values sname liveness_threshold hook_preclk hook_postclk =
     (case setup_outputs sname (init_state sim ins outs) of
        (Inl e, st) \<Rightarrow> Some (Inl e, st)
      | (Inr _, st) \<Rightarrow>
          rtlsim_loop D hook_preclk hook_postclk sname num_out_values liveness_threshold st)"

section \<open>Observing what drives the handle\<close>

text \<open>
  A \<open>SetPort\<close> event seen as the number its string reads back as, so that a claim
  about the level a signal is driven to does not depend on the port's width.
\<close>

datatype action = Drive string int | Advance int | Unreadable string

fun action_of :: "event \<Rightarrow> action" where
  "action_of (SetPort name bits) =
     (case py_int2 bits of Inr v \<Rightarrow> Drive name v | Inl _ \<Rightarrow> Unreadable name)"
| "action_of (Run t) = Advance t"

text \<open>
  A design that keeps the port list (names in index order) whatever time passes, as a
  compiled simulation does: its ports are fixed at elaboration.
\<close>

definition keeps_ports :: "'d dut \<Rightarrow> bool" where
  "keeps_ports D = (\<forall>t ps d. map fst (fst (D t (ps, d))) = map fst ps)"

text \<open>
  \<open>drives m N acts\<close>: on every handle whose port names are \<open>N\<close> the program \<open>m\<close>
  succeeds, keeps the names, and extends the trace by events that read as \<open>acts\<close>.
\<close>

definition drives :: "('d xsi, unit) prog \<Rightarrow> string list \<Rightarrow> action list \<Rightarrow> bool" where
  "drives m N acts =
     (\<forall>sim. map fst (ports sim) = N \<longrightarrow>
        (\<exists>sim' new. m sim = (Inr (), sim') \<and> map fst (ports sim') = N \<and>
           trace sim' = trace sim @ new \<and> map action_of new = acts))"

text \<open>
  The state after \<open>n\<close> passes of the loop body, provided none of them raised and none
  read an output word; \<open>None\<close> otherwise.
\<close>

fun idle_cycles ::
  "'d dut \<Rightarrow> 'd hook \<Rightarrow> 'd hook \<Rightarrow> string \<Rightarrow> nat \<Rightarrow> 'd rtlsim \<Rightarrow> 'd rtlsim option" where
  "idle_cycles D hook_preclk hook_postclk sname 0 st = Some st"
| "idle_cycles D hook_preclk hook_postclk sname (Suc n) st =
     (case cycle D hook_preclk hook_postclk sname st of
        (Inl e, st') \<Rightarrow> None
      | (Inr _, st') \<Rightarrow>
          if output_count st' = output_count st
          then idle_cycles D hook_preclk hook_postclk sname n (count_cycle st')
          else None)"

section \<open>Passes of the loop, seen from outside\<close>

text \<open>
  The number of time steps a trace holds: every clock cycle advances time twice.
\<close>

fun is_run :: "event \<Rightarrow> bool" where
  "is_run (Run t) = True"
| "is_run (SetPort name bits) = False"

definition time_steps :: "event list \<Rightarrow> nat" where
  "time_steps tr = length (filter is_run tr)"

text \<open>
  \<open>continues\<close>: the pass of the loop body that starts in \<open>st\<close> raises nothing, and after
  it neither the stall test nor the success test fires, so that another pass follows,
  starting in \<open>next_pass\<close>. \<open>continue_cycles n st\<close> is the state after \<open>n\<close> such passes,
  \<open>None\<close> when one of the first \<open>n\<close> passes ends the loop.
\<close>

definition continues ::
  "'d dut \<Rightarrow> 'd hook \<Rightarrow> 'd hook \<Rightarrow> string \<Rightarrow> int \<Rightarrow> int \<Rightarrow> 'd rtlsim \<Rightarrow> bool" where
  "continues D hook_preclk hook_postclk sname num_out_values liveness_threshold st =
     (case cycle D hook_preclk hook_postclk sname st of
        (Inl e, st') \<Rightarrow> False
      | (Inr _, st') \<Rightarrow>
          no_change_count (count_cycle st') \<noteq> liveness_threshold \<and>
          output_count (count_cycle st') \<noteq> num_out_values)"

definition next_pass :: "'d dut \<Rightarrow> 'd hook \<Rightarrow> 'd hook \<Rightarrow> string \<Rightarrow> 'd rtlsim \<Rightarrow> 'd rtlsim" where
  "next_pass D hook_preclk hook_postclk sname st =
     count_cycle (snd (cycle D hook_preclk hook_postclk sname st))"

fun continue_cycles ::
  "'d dut \<Rightarrow> 'd hook \<Rightarrow> 'd hook \<Rightarrow> string \<Rightarrow> int \<Rightarrow> int \<Rightarrow> nat \<Rightarrow> 'd rtlsim
     \<Rightarrow> 'd rtlsim option" where
  "continue_cycles D hook_preclk hook_postclk sname num_out_values liveness_threshold 0 st =
     Some st"
| "continue_cycles D hook_preclk hook_postclk sname num_out_values liveness_threshold (Suc n) st =
     (if continues D hook_preclk hook_postclk sname num_out_values liveness_threshold st
      then continue_cycles D hook_preclk hook_postclk sname num_out_values liveness_threshold n
             (next_pass D hook_preclk hook_postclk sname st)
      else None)"

text \<open>
  An accepted transfer on the channel \<open>inp\<close>, as the handle \<open>s\<close> shows it: \<^verbatim>\<open>TREADY\<close> and
  \<^verbatim>\<open>TVALID\<close> both read 1. \<open>readable\<close>: reading the two signals raises nothing.
\<close>

definition accepted :: "'d xsi \<Rightarrow> string \<Rightarrow> string \<Rightarrow> bool" where
  "accepted s sname inp =
     (read_signal s (inp @ sname @ ''TREADY'') = Inr 1 \<and>
      read_signal s (inp @ sname @ ''TVALID'') = Inr 1)"

definition readable :: "'d xsi \<Rightarrow> string \<Rightarrow> string \<Rightarrow> bool" where
  "readable s sname inp =
     (case ready_and_valid s (inp @ sname) of Inl e \<Rightarrow> False | Inr a \<Rightarrow> True)"

text \<open>
  The handle that the read phase of the pass starting in \<open>st\<close> looks at: the one the
  pre-clock hook and the falling edge leave, if neither raises.
\<close>

definition read_handle :: "'d dut \<Rightarrow> 'd hook \<Rightarrow> 'd rtlsim \<Rightarrow> 'd xsi option" where
  "read_handle D hook_preclk st =
     (case run_hook hook_preclk (xsim st) of
        (Inl e, s0) \<Rightarrow> None
      | (Inr _, s0) \<Rightarrow>
          (case toggle_neg_edge D ''ap_clk'' s0 of
             (Inl e, s1) \<Rightarrow> None
           | (Inr _, s1) \<Rightarrow> Some s1))"

text \<open>
  The number of transfers (0 or 1) that the pass starting in \<open>st\<close> accepts on the
  \<open>i\<close>-th input channel: 1 when the read phase takes place, gets as far as that channel
  (every earlier channel and this one are readable) and finds the transfer accepted.
  \<open>run_pops m st i\<close> adds these up over the first \<open>m\<close> passes.
\<close>

definition pass_pops :: "'d dut \<Rightarrow> 'd hook \<Rightarrow> string \<Rightarrow> 'd rtlsim \<Rightarrow> nat \<Rightarrow> nat" where
  "pass_pops D hook_preclk sname st i =
     (case read_handle D hook_preclk st of
        None \<Rightarrow> 0
      | Some s1 \<Rightarrow>
          if i < length (takeWhile (readable s1 sname) (map fst (io_inputs st))) \<and>
             accepted s1 sname (fst (io_inputs st ! i))
          then 1 else 0)"

fun run_pops ::
  "'d dut \<Rightarrow> 'd hook \<Rightarrow> 'd hook \<Rightarrow> string \<Rightarrow> nat \<Rightarrow> 'd rtlsim \<Rightarrow> nat \<Rightarrow> nat" where
  "run_pops D hook_preclk hook_postclk sname 0 st i = 0"
| "run_pops D hook_preclk hook_postclk sname (Suc m) st i =
     pass_pops D hook_preclk sname st i +
     run_pops D hook_preclk hook_postclk sname m (next_pass D hook_preclk hook_postclk sname st) i"

text \<open>
  \<open>popped_by f ins ins'\<close>: the same channels in the same order, the \<open>i\<close>-th queue of
  \<open>ins'\<close> being the \<open>i\<close>-th queue of \<open>ins\<close> without its first \<open>f i\<close> words.
\<close>

definition popped_by ::
  "(nat \<Rightarrow> nat) \<Rightarrow> (string \<times> int list) list \<Rightarrow> (string \<times> int list) list \<Rightarrow> bool" where
  "popped_by f ins ins' =
     (length ins' = length ins \<and>
      (\<forall>i < length ins. ins' ! i = (fst (ins ! i), drop (f i) (snd (ins ! i)))))"

section \<open>Example handles\<close>

text \<open>A handle with a clock and a four-bit port, driven by no design.\<close>

definition sim4 :: "unit xsi" where
  "sim4 = \<lparr>ports = [(''ap_clk'', ''0''), (''data'', ''0000'')], design = (), trace = []\<rparr>"

text \<open>A handle whose only port has an empty value string (width 0).\<close>

definition sim_w0 :: "unit xsi" where
  "sim_w0 = \<lparr>ports = [(''a'', [])], design = (), trace = []\<rparr>"

text \<open>A design that never changes a port: the ports hold what was last written.\<close>

definition idle_dut :: "unit dut" where
  "idle_dut t x = x"

text \<open>
  A handle with one output channel whose \<^verbatim>\<open>TVALID\<close> is low: under \<open>idle_dut\<close> it never
  produces an output word. \<open>quiet_ports k r\<close> is its port list with the clock at \<open>k\<close>
  and \<^verbatim>\<open>TREADY\<close> at \<open>r\<close>.
\<close>

definition quiet_ports :: "string \<Rightarrow> string \<Rightarrow> (string \<times> string) list" where
  "quiet_ports k r =
     [(''ap_clk'', k), (''ap_rst_n'', ''0''), (''out0_V_V_TREADY'', r),
      (''out0_V_V_TVALID'', ''0''), (''out0_V_V_TDATA'', ''00'')]"

definition sim_quiet :: "unit xsi" where
  "sim_quiet = \<lparr>ports = quiet_ports ''0'' ''0'', design = (), trace = []\<rparr>"

text \<open>
  A handle with one input channel whose \<^verbatim>\<open>TREADY\<close> is high: under \<open>idle_dut\<close> it
  accepts a word in every cycle in which \<^verbatim>\<open>TVALID\<close> is high, and produces nothing.
  \<open>sink_ports k v d\<close> is its port list with the clock at \<open>k\<close>, \<^verbatim>\<open>TVALID\<close> at \<open>v\<close> and
  \<^verbatim>\<open>TDATA\<close> at \<open>d\<close>.
\<close>

definition sink_ports :: "string \<Rightarrow> string \<Rightarrow> string \<Rightarrow> (string \<times> string) list" where
  "sink_ports k v d =
     [(''ap_clk'', k), (''in0_V_V_TREADY'', ''1''), (''in0_V_V_TVALID'', v),
      (''in0_V_V_TDATA'', d)]"

definition sim_sink :: "unit xsi" where
  "sim_sink = \<lparr>ports = sink_ports ''0'' ''0'' ''000'', design = (), trace = []\<rparr>"

text \<open>
  A design with one output channel that offers the word 2 once: \<^verbatim>\<open>TVALID\<close> is high
  after the first time step and low after every later one. The hidden state counts
  the time steps. \<open>pulse_ports k r v\<close> is the port list with the clock at \<open>k\<close>,
  \<^verbatim>\<open>TREADY\<close> at \<open>r\<close> and \<^verbatim>\<open>TVALID\<close> at \<open>v\<close>.
\<close>

definition pulse_dut :: "nat dut" where
  "pulse_dut t x =
     (case x of (ps, n) \<Rightarrow>
        (assign_port ''out0_V_V_TVALID'' (if n = 0 then ''1'' else ''0'') ps, Suc n))"

definition pulse_ports :: "string \<Rightarrow> string \<Rightarrow> string \<Rightarrow> (string \<times> string) list" where
  "pulse_ports k r v =
     [(''ap_clk'', k), (''out0_V_V_TREADY'', r), (''out0_V_V_TVALID'', v),
      (''out0_V_V_TDATA'', ''10'')]"

definition sim_pulse :: "nat xsi" where
  "sim_pulse = \<lparr>ports = pulse_ports ''0'' ''0'' ''0'', design = 0, trace = []\<rparr>"

text \<open>A handle with a port whose name has capital letters.\<close>

definition sim_mixed :: "unit xsi" where
  "sim_mixed = \<lparr>ports = [(''ap_clk'', ''0''), (''Data_In'', ''00'')], design = (), trace = []\<rparr>"

text \<open>
  The pulse design with the word offered later: \<^verbatim>\<open>TVALID\<close> is high after the third time
  step only, so the second pass of the engine reads the word.
\<close>

definition late_dut :: "nat dut" where
  "late_dut t x =
     (case x of (ps, n) \<Rightarrow>
        (assign_port ''out0_V_V_TVALID'' (if n = 2 then ''1'' else ''0'') ps, Suc n))"

text \<open>The frame of the loop body: the three counters that only \<open>count_cycle\<close> updates.\<close>

definition body_frame :: "'d rtlsim \<Rightarrow> 'd rtlsim \<Rightarrow> bool" where
  "body_frame st st' =
     (total_cycle_count st' = total_cycle_count st \<and>
      no_change_count st' = no_change_count st \<and>
      old_output_count st' = old_output_count st)"

section \<open>Name resolution and port access\<close>
lemma signal_list_eq: "map (get_port_name sim) [0..<get_port_count sim] = map fst (ports sim)"
  by (rule nth_equalityI) (simp_all add: get_port_name_def get_port_count_def)

lemma find_signal_eq:
  "find_signal sim q =
     (if q \<in> fst ` set (ports sim) then Inr q
      else if lower q \<in> fst ` set (ports sim) then Inr (lower q)
      else Inl (SignalNotFoundError q))"
  by (simp add: find_signal_def signal_list_eq)

lemma find_signal_mem: "find_signal sim q = Inr n \<Longrightarrow> n \<in> fst ` set (ports sim)"
  by (auto simp: find_signal_eq split: if_splits)

lemma find_signal_cong:
  "map fst (ports s') = map fst (ports s) \<Longrightarrow> find_signal s' q = find_signal s q"
proof -
  assume "map fst (ports s') = map fst (ports s)"
  then have "set (map fst (ports s')) = set (map fst (ports s))" by simp
  then show ?thesis by (simp add: find_signal_eq)
qed

lemma map_fst_assign_port [simp]: "map fst (assign_port n v ps) = map fst ps"
  by (induction ps) auto

lemma map_of_assign_port_same:
  "n \<in> fst ` set ps \<Longrightarrow> map_of (assign_port n v ps) n = Some v"
  by (induction ps) auto

lemma map_of_assign_port_other:
  "m \<noteq> n \<Longrightarrow> map_of (assign_port n v ps) m = map_of ps m"
  by (induction ps) auto

lemma get_port_value_mem:
  "n \<in> fst ` set (ports sim) \<Longrightarrow> \<exists>v. get_port_value sim n = Inr v"
  by (cases "map_of (ports sim) n") (auto simp: get_port_value_def map_of_eq_None_iff)

section \<open>Binary numerals\<close>

lemma digits_ok_bits: "list_all bin_digit s \<Longrightarrow> digits_ok p s = (p \<or> s \<noteq> [])"
  by (induction s arbitrary: p) auto

lemma digits_val_append: "digits_val a (xs @ ys) = digits_val (digits_val a xs) ys"
  by (induction xs arbitrary: a) auto

lemma digits_val_bits: "list_all bin_digit s \<Longrightarrow> digits_val a s = a * 2 ^ length s + digits_val 0 s"
proof (induction s arbitrary: a)
  case Nil
  then show ?case by simp
next
  case (Cons c s)
  from Cons.prems have s: "list_all bin_digit s" by simp
  from Cons.prems have c: "c \<noteq> CHR ''_''" by (auto simp: bin_digit_def)
  show ?case
    using Cons.IH [OF s, of "2 * a + (if c = CHR ''1'' then 1 else 0)"]
          Cons.IH [OF s, of "(if c = CHR ''1'' then 1 else 0)"] c
    by (simp add: algebra_simps)
qed

lemma digits_val_bound: "list_all bin_digit s \<Longrightarrow> digits_val 0 s < 2 ^ length s"
proof (induction s rule: rev_induct)
  case Nil
  then show ?case by simp
next
  case (snoc c s)
  then have "digits_val 0 s < 2 ^ length s" and "c \<noteq> CHR ''_''"
    by (auto simp: bin_digit_def)
  then show ?case by (auto simp: digits_val_append)
qed

lemma strip_bits: "list_all bin_digit s \<Longrightarrow> strip s = s"
proof -
  assume a: "list_all bin_digit s"
  then have "dropWhile py_isspace s = s"
    by (cases s) (auto simp: bin_digit_def py_isspace_def)
  moreover from a have "dropWhile py_isspace (rev s) = rev s"
    by (cases s rule: rev_cases) (auto simp: bin_digit_def py_isspace_def)
  ultimately show ?thesis by (simp add: strip_def)
qed

lemma py_int2_bits:
  assumes "list_all bin_digit s" and "s \<noteq> []"
  shows "py_int2 s = Inr (int (digits_val 0 s))"
proof -
  have sg: "strip_sign s = (False, s)"
    using assms by (cases s) (auto simp: strip_sign_def bin_digit_def)
  have px: "strip_prefix_0b s = s"
    using assms by (cases s; cases "tl s") (auto simp: strip_prefix_0b_def bin_digit_def split: list.splits)
  show ?thesis
    using assms by (simp add: py_int2_def strip_bits sg px digits_ok_bits)
qed

lemma bin_str_bits: "list_all bin_digit (bin_str n)"
proof (induction n rule: bin_str.induct)
  case (1 n)
  show ?case
  proof (cases "n < 2")
    case True
    then show ?thesis by (subst bin_str.simps) (simp add: bin_digit_def)
  next
    case False
    with 1 have "list_all bin_digit (bin_str (n div 2))" by simp
    with False show ?thesis by (subst bin_str.simps) (simp add: bin_digit_def)
  qed
qed

lemma bin_str_nonempty: "bin_str n \<noteq> []"
  by (subst bin_str.simps) simp

lemma digits_val_bin_str: "digits_val 0 (bin_str n) = n"
proof (induction n rule: bin_str.induct)
  case (1 n)
  show ?case
  proof (cases "n < 2")
    case True
    then show ?thesis by (subst bin_str.simps) auto
  next
    case False
    then have "digits_val 0 (bin_str (n div 2)) = n div 2" using 1 by simp
    with False show ?thesis
      by (subst bin_str.simps) (simp add: digits_val_append, presburger)
  qed
qed


lemma digits_val_zeros: "digits_val 0 (replicate k (CHR ''0'')) = 0"
  by (induction k) auto

lemma digits_val_drop:
  assumes "list_all bin_digit s"
  shows "digits_val 0 (drop k s) = digits_val 0 s mod 2 ^ (length s - k)"
proof -
  have t: "list_all bin_digit (take k s)" and d: "list_all bin_digit (drop k s)"
    using assms by (auto simp: list_all_iff dest: in_set_takeD in_set_dropD)
  have "digits_val 0 s = digits_val (digits_val 0 (take k s)) (drop k s)"
    using digits_val_append [of 0 "take k s" "drop k s"] by simp
  also have "\<dots> = digits_val 0 (take k s) * 2 ^ length (drop k s) + digits_val 0 (drop k s)"
    by (rule digits_val_bits [OF d])
  finally have "digits_val 0 s mod 2 ^ (length s - k) = digits_val 0 (drop k s) mod 2 ^ (length s - k)"
    by simp
  moreover have "digits_val 0 (drop k s) < 2 ^ (length s - k)"
    using digits_val_bound [OF d] by simp
  ultimately show ?thesis by simp
qed

lemma zeros_bits: "list_all bin_digit (replicate k (CHR ''0''))"
  by (induction k) (simp_all add: bin_digit_def)

lemma format_0b_bits: "0 \<le> v \<Longrightarrow> list_all bin_digit (format_0b v w)"
  by (simp add: format_0b_def Let_def bin_str_bits zeros_bits)

lemma format_0b_val: "0 \<le> v \<Longrightarrow> digits_val 0 (format_0b v w) = nat v"
  by (simp add: format_0b_def Let_def digits_val_append digits_val_zeros digits_val_bin_str)

lemma format_0b_length: "0 \<le> v \<Longrightarrow> w \<le> length (format_0b v w)"
  by (simp add: format_0b_def Let_def)

lemma encode_bits: "0 \<le> v \<Longrightarrow> list_all bin_digit (encode w v)"
  using format_0b_bits [of v w]
  by (auto simp: encode_def py_suffix_def list_all_iff dest: in_set_dropD)

lemma encode_nonempty: "0 \<le> v \<Longrightarrow> encode w v \<noteq> []"
  using format_0b_length [of v w] bin_str_nonempty [of "nat \<bar>v\<bar>"]
  by (auto simp: encode_def py_suffix_def format_0b_def Let_def)

lemma encode_length: "0 \<le> v \<Longrightarrow> 1 \<le> w \<Longrightarrow> length (encode w v) = w"
  using format_0b_length [of v w] by (simp add: encode_def py_suffix_def)

lemma encode_val: "0 \<le> v \<Longrightarrow> 1 \<le> w \<Longrightarrow> digits_val 0 (encode w v) = nat v mod 2 ^ w"
  using format_0b_length [of v w]
  by (simp add: encode_def py_suffix_def digits_val_drop format_0b_bits format_0b_val)

lemma py_int2_encode:
  assumes "0 \<le> v" and "1 \<le> w"
  shows "py_int2 (encode w v) = Inr (v mod 2 ^ w)"
proof -
  have "py_int2 (encode w v) = Inr (int (nat v mod 2 ^ w))"
    using assms by (simp add: py_int2_bits encode_bits encode_nonempty encode_val)
  also have "int (nat v mod 2 ^ w) = v mod 2 ^ w"
    using assms by (simp add: zmod_int)
  finally show ?thesis .
qed

lemma py_int2_encode_width0: "0 \<le> v \<Longrightarrow> py_int2 (encode 0 v) = Inr v"
  using py_int2_bits [OF bin_str_bits bin_str_nonempty, of "nat v"]
  by (simp add: encode_def py_suffix_def format_0b_def Let_def digits_val_bin_str)

section \<open>Writing and reading a signal\<close>

lemma write_signal_resolved:
  assumes "find_signal sim signal_name = Inr name" and "0 \<le> v"
  shows "\<exists>cur. get_port_value sim name = Inr cur \<and>
           write_signal signal_name v sim =
             (Inr (), sim\<lparr>ports := assign_port name (encode (length cur) v) (ports sim),
                          trace := trace sim @ [SetPort name (encode (length cur) v)]\<rparr>)"
proof -
  have m: "name \<in> fst ` set (ports sim)" using assms(1) by (rule find_signal_mem)
  then obtain cur where c: "get_port_value sim name = Inr cur"
    using get_port_value_mem by blast
  show ?thesis
    using assms m c by (auto simp: write_signal_def set_port_value_def encode_def Let_def)
qed

lemma read_after_assign:
  assumes "find_signal sim signal_name = Inr name"
  shows "read_signal (sim\<lparr>ports := assign_port name bits (ports sim), trace := tr\<rparr>) signal_name
           = py_int2 bits"
proof -
  let ?s = "sim\<lparr>ports := assign_port name bits (ports sim), trace := tr\<rparr>"
  have m: "name \<in> fst ` set (ports sim)" using assms by (rule find_signal_mem)
  have "find_signal ?s signal_name = find_signal sim signal_name"
    by (rule find_signal_cong) simp
  moreover have "get_port_value ?s name = Inr bits"
    using m by (simp add: get_port_value_def map_of_assign_port_same)
  ultimately show ?thesis using assms by (simp add: read_signal_def)
qed

text \<open>
  Claim C1. For a signal that resolves and whose current value has \<open>w \<ge> 1\<close> characters, and
  every \<open>v\<close> with \<open>0 \<le> v < 2 ^ w\<close>: \<open>write_signal\<close> succeeds, and \<open>read_signal\<close> of the same
  signal in the state it leaves returns exactly \<open>v\<close>.
\<close>

theorem write_then_read_roundtrip:
  assumes "find_signal sim signal_name = Inr name"
      and "get_port_value sim name = Inr cur"
      and "length cur = w" and "1 \<le> w"
      and "0 \<le> v" and "v < 2 ^ w"
  shows "\<exists>sim'. write_signal signal_name v sim = (Inr (), sim') \<and>
                read_signal sim' signal_name = Inr v"
proof -
  from write_signal_resolved [OF assms(1) assms(5)] assms(2,3)
  have w: "write_signal signal_name v sim =
             (Inr (), sim\<lparr>ports := assign_port name (encode w v) (ports sim),
                          trace := trace sim @ [SetPort name (encode w v)]\<rparr>)"
    by auto
  have "py_int2 (encode w v) = Inr v"
    using py_int2_encode [OF assms(5) assms(4)] assms(5,6) by simp
  then show ?thesis
    using w read_after_assign [OF assms(1)] by simp
qed

text \<open>
  The round trip at the four-bit port, queried in upper case, with \<open>v = 11\<close>.
\<close>

theorem write_then_read_roundtrip_witness:
  "\<exists>sim'. write_signal ''DATA'' 11 sim4 = (Inr (), sim') \<and> read_signal sim' ''DATA'' = Inr 11"
  using write_then_read_roundtrip [of sim4 "''DATA''" "''data''" "''0000''" 4 11]
  by (simp add: sim4_def find_signal_eq get_port_value_def lower_def lower_char_def)

lemma bin_str_longer:
  assumes "2 ^ w \<le> n"
  shows "w < length (bin_str n)"
proof -
  have "n < 2 ^ length (bin_str n)"
    using digits_val_bound [OF bin_str_bits, of n] by (simp add: digits_val_bin_str)
  with assms have "(2::nat) ^ w < 2 ^ length (bin_str n)" by linarith
  then show ?thesis by simp
qed

lemma encode_truncates:
  assumes "2 ^ w \<le> v" and "1 \<le> w"
  shows "encode w v = drop (length (bin_str (nat v)) - w) (bin_str (nat v))"
proof -
  have "(0::int) \<le> 2 ^ w" by simp
  with assms(1) have v: "0 \<le> v" by linarith
  have "int (2 ^ w) \<le> v" using assms(1) by simp
  then have "2 ^ w \<le> nat v" using v by linarith
  then have "w < length (bin_str (nat v))" by (rule bin_str_longer)
  then show ?thesis
    using v assms(2) by (simp add: encode_def py_suffix_def format_0b_def Let_def)
qed

text \<open>
  Claim C2, amended to widths \<open>w \<ge> 1\<close>. For \<open>v \<ge> 2 ^ w\<close> the write does not fail; the
  string stored is the last \<open>w\<close> binary digits of \<open>v\<close> (the leading digits are dropped), it
  has exactly \<open>w\<close> characters, and it reads back as \<open>v mod 2 ^ w\<close>.
\<close>

theorem write_truncates_to_width:
  assumes "find_signal sim signal_name = Inr name"
      and "get_port_value sim name = Inr cur"
      and "length cur = w" and "1 \<le> w"
      and "2 ^ w \<le> v"
  shows "\<exists>sim' bits.
           write_signal signal_name v sim = (Inr (), sim') \<and>
           get_port_value sim' name = Inr bits \<and>
           bits = drop (length (bin_str (nat v)) - w) (bin_str (nat v)) \<and>
           length bits = w \<and>
           read_signal sim' signal_name = Inr (v mod 2 ^ w)"
proof -
  have "(0::int) \<le> 2 ^ w" by simp
  with assms(5) have v: "0 \<le> v" by linarith
  let ?s = "sim\<lparr>ports := assign_port name (encode w v) (ports sim),
                 trace := trace sim @ [SetPort name (encode w v)]\<rparr>"
  from write_signal_resolved [OF assms(1) v] assms(2,3)
  have w: "write_signal signal_name v sim = (Inr (), ?s)" by auto
  have m: "name \<in> fst ` set (ports sim)" using assms(1) by (rule find_signal_mem)
  have g: "get_port_value ?s name = Inr (encode w v)"
    using m by (simp add: get_port_value_def map_of_assign_port_same)
  have r: "read_signal ?s signal_name = Inr (v mod 2 ^ w)"
    using read_after_assign [OF assms(1)] py_int2_encode [OF v assms(4)] by simp
  have l: "length (encode w v) = w" by (rule encode_length [OF v assms(4)])
  have t: "encode w v = drop (length (bin_str (nat v)) - w) (bin_str (nat v))"
    by (rule encode_truncates [OF assms(5) assms(4)])
  show ?thesis
    using w g r l t by (intro exI [of _ ?s] exI [of _ "encode w v"]) simp
qed

text \<open>
  Writing 45 (binary 101101) to the four-bit port stores 1101, which reads as 13.
\<close>

theorem write_truncates_to_width_witness:
  "\<exists>sim' bits.
     write_signal ''data'' 45 sim4 = (Inr (), sim') \<and>
     get_port_value sim' ''data'' = Inr bits \<and>
     bits = drop (length (bin_str (nat 45)) - 4) (bin_str (nat 45)) \<and>
     length bits = 4 \<and>
     read_signal sim' ''data'' = Inr (45 mod 2 ^ 4)"
  using write_truncates_to_width [of sim4 "''data''" "''data''" "''0000''" 4 45]
  by (simp add: sim4_def find_signal_eq get_port_value_def)

text \<open>
  Claim C2 as stated covers every width. On a port whose value string is empty
  (width 0) and \<open>v = 1 \<ge> 2 ^ 0\<close>, the format width 0 pads nothing and the slice
  \<^verbatim>\<open>[-0:]\<close> keeps the whole numeral: the string written is \<^verbatim>\<open>1\<close>, which reads back
  as 1 and not as \<open>1 mod 2 ^ 0 = 0\<close>.
\<close>

theorem write_width0_counterexample:
  "write_signal ''a'' 1 sim_w0 =
     (Inr (), \<lparr>ports = [(''a'', ''1'')], design = (), trace = [SetPort ''a'' ''1'']\<rparr>) \<and>
   get_port_value sim_w0 ''a'' = Inr [] \<and>
   (2::int) ^ length ([] :: string) \<le> 1 \<and>
   read_signal \<lparr>ports = [(''a'', ''1'')], design = (), trace = [SetPort ''a'' ''1'']\<rparr> ''a''
     \<noteq> Inr (1 mod 2 ^ length ([] :: string))"
  by (simp add: sim_w0_def write_signal_def read_signal_def find_signal_eq get_port_value_def
        set_port_value_def py_suffix_def format_0b_def bin_str.simps py_int2_def strip_def
        strip_sign_def strip_prefix_0b_def py_isspace_def bin_digit_def)

text \<open>
  Claim C3. For every \<open>v < 0\<close>, \<open>write_signal\<close> raises and returns the handle exactly as
  it was (ports and trace: no port was written); when the signal resolves the
  exception is \<open>NegativeValueUnsupportedError\<close>.
\<close>

theorem negative_write_rejected:
  assumes "v < 0"
  shows "(\<exists>e. write_signal signal_name v sim = (Inl e, sim)) \<and>
         (find_signal sim signal_name = Inr name \<longrightarrow>
            write_signal signal_name v sim = (Inl NegativeValueUnsupportedError, sim))"
proof (cases "find_signal sim signal_name")
  case (Inl e)
  then show ?thesis by (simp add: write_signal_def)
next
  case (Inr n)
  then have "n \<in> fst ` set (ports sim)" by (rule find_signal_mem)
  then obtain cur where "get_port_value sim n = Inr cur"
    using get_port_value_mem by blast
  with Inr assms show ?thesis by (auto simp: write_signal_def Let_def)
qed

text \<open>
  Writing \<open>- 3\<close> to the four-bit port.
\<close>

theorem negative_write_rejected_witness:
  "(\<exists>e. write_signal ''data'' (- 3) sim4 = (Inl e, sim4)) \<and>
   write_signal ''data'' (- 3) sim4 = (Inl NegativeValueUnsupportedError, sim4)"
  using negative_write_rejected [of "- 3" "''data''" sim4 "''data''"]
  by (simp add: sim4_def find_signal_eq)

lemma upper_code:
  assumes "65 \<le> (of_char c :: nat)" and "(of_char c :: nat) \<le> 90"
  shows "c \<in> set ''ABCDEFGHIJKLMNOPQRSTUVWXYZ''"
proof -
  from assms have "(of_char c :: nat) \<in> of_char ` set ''ABCDEFGHIJKLMNOPQRSTUVWXYZ''"
    by simp presburger
  then obtain L where L: "L \<in> set ''ABCDEFGHIJKLMNOPQRSTUVWXYZ''"
    and e: "(of_char c :: nat) = of_char L"
    by (rule imageE)
  from e have "c = L" by (simp only: of_char_eq_iff)
  with L show ?thesis by (simp only:)
qed

lemma lower_char_upper:
  assumes "c \<in> set ''ABCDEFGHIJKLMNOPQRSTUVWXYZ''"
  shows "(of_char (lower_char c) :: nat) = of_char c + 32 \<and> 65 \<le> (of_char c :: nat) \<and>
         (of_char c :: nat) \<le> 90"
  using assms by (auto simp: lower_char_def)

lemma lower_char_code:
  "(of_char (lower_char c) :: nat) =
     (if (65 \<le> (of_char c :: nat) \<and> (of_char c :: nat) \<le> 90) \<or>
         (192 \<le> (of_char c :: nat) \<and> (of_char c :: nat) \<le> 222 \<and> (of_char c :: nat) \<noteq> 215)
      then of_char c + 32 else of_char c)"
proof (cases "c \<in> set ''ABCDEFGHIJKLMNOPQRSTUVWXYZ''")
  case True
  from lower_char_upper [OF True] show ?thesis by simp
next
  case False
  then have n: "\<not> (65 \<le> (of_char c :: nat) \<and> (of_char c :: nat) \<le> 90)"
    using upper_code by blast
  from False
  have "map_of (zip ''ABCDEFGHIJKLMNOPQRSTUVWXYZ'' ''abcdefghijklmnopqrstuvwxyz'') c = None"
    by (simp only: map_of_eq_None_iff) (simp add: )
  then have "lower_char c =
      (if 192 \<le> (of_char c :: nat) \<and> (of_char c :: nat) \<le> 222 \<and> (of_char c :: nat) \<noteq> 215
       then char_of ((of_char c :: nat) + 32) else c)"
    by (simp add: lower_char_def Let_def)
  moreover have "(of_char (char_of ((of_char c :: nat) + 32) :: char) :: nat) = of_char c + 32"
    if "(of_char c :: nat) \<le> 222"
    using that by (simp add: of_char_of)
  ultimately show ?thesis using n by auto
qed

text \<open>
  Claim C4. Signal resolution returns the queried name when it is among the port
  names; otherwise its lower-case form when that is among them; otherwise it raises
  \<open>SignalNotFoundError\<close>. A query matching in neither form therefore always fails.
  The lower-case form has the length of the query, and each of its characters is the
  query's character, moved 32 code points up when that is a capital letter (\<open>A\<close>..\<open>Z\<close>,
  or U+00C0..U+00DE without U+00D7): the fallback folds the case of the query only,
  never that of a port name.
\<close>

theorem find_signal_resolution:
  "find_signal sim q =
     (if q \<in> set (map fst (ports sim)) then Inr q
      else if lower q \<in> set (map fst (ports sim)) then Inr (lower q)
      else Inl (SignalNotFoundError q)) \<and>
   length (lower q) = length q \<and>
   (\<forall>i < length q.
      (of_char (lower q ! i) :: nat) =
        (if (65 \<le> (of_char (q ! i) :: nat) \<and> (of_char (q ! i) :: nat) \<le> 90) \<or>
            (192 \<le> (of_char (q ! i) :: nat) \<and> (of_char (q ! i) :: nat) \<le> 222 \<and>
             (of_char (q ! i) :: nat) \<noteq> 215)
         then of_char (q ! i) + 32 else of_char (q ! i)))"
  by (simp add: find_signal_eq lower_def lower_char_code)

text \<open>
  On the handle with the ports \<^verbatim>\<open>ap_clk\<close> and \<^verbatim>\<open>Data_In\<close>: \<^verbatim>\<open>AP_CLK\<close> resolves to
  \<^verbatim>\<open>ap_clk\<close> through its lower-case form, \<^verbatim>\<open>Data_In\<close> resolves as it is, and \<^verbatim>\<open>DATA_IN\<close>,
  which matches neither as it is nor in lower case, is not found.
\<close>

theorem find_signal_resolution_witness:
  "find_signal sim_mixed ''AP_CLK'' = Inr ''ap_clk'' \<and>
   find_signal sim_mixed ''Data_In'' = Inr ''Data_In'' \<and>
   find_signal sim_mixed ''DATA_IN'' = Inl (SignalNotFoundError ''DATA_IN'') \<and>
   (of_char (lower ''AP_CLK'' ! 0) :: nat) = 97"
  using find_signal_resolution [of sim_mixed "''AP_CLK''"]
        find_signal_resolution [of sim_mixed "''Data_In''"]
        find_signal_resolution [of sim_mixed "''DATA_IN''"]
  by (simp add: sim_mixed_def lower_def lower_char_def)

section \<open>Time steps and single bits\<close>

lemma sim_run_apply:
  "sim_run D t sim =
     (Inr (), sim\<lparr>ports := fst (D t (ports sim, design sim)),
                  design := snd (D t (ports sim, design sim)),
                  trace := trace sim @ [Run t]\<rparr>)"
  by (simp add: sim_run_def split: prod.splits)

lemma py_int2_encode_bit:
  assumes "v = 0 \<or> v = 1"
  shows "py_int2 (encode w v) = Inr v"
proof (cases "w = 0")
  case True
  with assms show ?thesis using py_int2_encode_width0 [of v] by auto
next
  case False
  then have "(2::int) ^ 1 \<le> 2 ^ w" by (intro power_increasing) auto
  then have "(1::int) < 2 ^ w" by simp
  with assms False have "v mod 2 ^ w = v" by auto
  with assms False show ?thesis using py_int2_encode [of v w] by auto
qed

section \<open>Falling edge\<close>

text \<open>
  Claim C9. \<open>toggle_neg_edge\<close> drives the handle exactly twice: one \<open>SetPort\<close> on the
  resolved clock, with a string that reads as 0, and then \<open>Run 5000\<close>. Before time
  advances every other port has the value it had, and the ports afterwards are what
  the design makes of them. When the clock does not resolve nothing is driven at all.
\<close>

theorem neg_edge_writes_only_clock:
  "case find_signal sim clk_name of
     Inl e \<Rightarrow> toggle_neg_edge D clk_name sim = (Inl e, sim)
   | Inr c \<Rightarrow>
       (\<exists>zeros sim'.
          toggle_neg_edge D clk_name sim = (Inr (), sim') \<and>
          trace sim' = trace sim @ [SetPort c zeros, Run 5000] \<and>
          py_int2 zeros = Inr 0 \<and>
          map fst (assign_port c zeros (ports sim)) = map fst (ports sim) \<and>
          (\<forall>n. n \<noteq> c \<longrightarrow> map_of (assign_port c zeros (ports sim)) n = map_of (ports sim) n) \<and>
          (ports sim', design sim') = D 5000 (assign_port c zeros (ports sim), design sim))"
proof (cases "find_signal sim clk_name")
  case (Inl e)
  then show ?thesis
    by (simp add: toggle_neg_edge_def pbind_def write_signal_def)
next
  case (Inr c)
  from write_signal_resolved [OF Inr, of 0]
  obtain cur where "get_port_value sim c = Inr cur" and w: "write_signal clk_name 0 sim =
      (Inr (), sim\<lparr>ports := assign_port c (encode (length cur) 0) (ports sim),
                   trace := trace sim @ [SetPort c (encode (length cur) 0)]\<rparr>)"
    by auto
  have z: "py_int2 (encode (length cur) 0) = Inr 0"
    by (rule py_int2_encode_bit) simp
  show ?thesis
    using Inr w z
    by (simp add: toggle_neg_edge_def pbind_def sim_run_apply succeed_def
          map_of_assign_port_other)
qed

text \<open>
  On the example handle: the clock is the only port written, the four-bit port keeps
  its value.
\<close>

theorem neg_edge_writes_only_clock_witness:
  "\<exists>zeros sim'.
     toggle_neg_edge (\<lambda>t x. x) ''ap_clk'' sim4 = (Inr (), sim') \<and>
     trace sim' = trace sim4 @ [SetPort ''ap_clk'' zeros, Run 5000] \<and>
     py_int2 zeros = Inr 0 \<and>
     map_of (assign_port ''ap_clk'' zeros (ports sim4)) ''data'' = map_of (ports sim4) ''data''"
  using neg_edge_writes_only_clock [where sim = sim4 and clk_name = "''ap_clk''" and D = "\<lambda>t x. x"]
  by (simp add: sim4_def find_signal_eq) blast

section \<open>Traces of the edge toggler\<close>

lemma drivesI:
  assumes "\<And>sim. map fst (ports sim) = N \<Longrightarrow>
             \<exists>sim' new. m sim = (Inr (), sim') \<and> map fst (ports sim') = N \<and>
               trace sim' = trace sim @ new \<and> map action_of new = acts"
  shows "drives m N acts"
  using assms by (simp add: drives_def)

lemma drivesD:
  assumes "drives m N acts" and "map fst (ports sim) = N"
  shows "\<exists>sim' new. m sim = (Inr (), sim') \<and> map fst (ports sim') = N \<and>
           trace sim' = trace sim @ new \<and> map action_of new = acts"
  using assms by (simp add: drives_def)

lemma drives_succeed: "drives (succeed ()) N []"
  by (rule drivesI) (simp add: succeed_def)

lemma drives_sequence_Nil: "drives (sequence []) N []"
  by (simp add: drives_succeed)

lemma drives_sequence_Cons:
  assumes "drives m N a" and "drives (sequence ms) N b"
  shows "drives (sequence (m # ms)) N (a @ b)"
proof (rule drivesI)
  fix sim :: "'a xsi"
  assume n: "map fst (ports sim) = N"
  from drivesD [OF assms(1) n] obtain s1 e1 where
    1: "m sim = (Inr (), s1)" "map fst (ports s1) = N" "trace s1 = trace sim @ e1"
       "map action_of e1 = a"
    by blast
  from drivesD [OF assms(2) 1(2)] obtain s2 e2 where
    2: "sequence ms s1 = (Inr (), s2)" "map fst (ports s2) = N" "trace s2 = trace s1 @ e2"
       "map action_of e2 = b"
    by blast
  show "\<exists>sim' new. sequence (m # ms) sim = (Inr (), sim') \<and> map fst (ports sim') = N \<and>
          trace sim' = trace sim @ new \<and> map action_of new = a @ b"
    using 1 2 by (intro exI [of _ s2] exI [of _ "e1 @ e2"]) (simp add: pbind_def)
qed

lemma drives_write_bit:
  fixes sim0 :: "'d xsi"
  assumes "find_signal sim0 q = Inr c" and "v = 0 \<or> v = 1"
  shows "drives (write_signal q v :: ('d xsi, unit) prog) (map fst (ports sim0)) [Drive c v]"
proof (rule drivesI)
  fix sim :: "'d xsi"
  assume n: "map fst (ports sim) = map fst (ports sim0)"
  then have f: "find_signal sim q = Inr c"
    using assms(1) find_signal_cong [of sim sim0 q] by simp
  have v: "0 \<le> v" using assms(2) by auto
  from write_signal_resolved [OF f v] obtain cur where
    "get_port_value sim c = Inr cur" and
    w: "write_signal q v sim =
          (Inr (), sim\<lparr>ports := assign_port c (encode (length cur) v) (ports sim),
                       trace := trace sim @ [SetPort c (encode (length cur) v)]\<rparr>)"
    by auto
  show "\<exists>sim' new. write_signal q v sim = (Inr (), sim') \<and>
          map fst (ports sim') = map fst (ports sim0) \<and>
          trace sim' = trace sim @ new \<and> map action_of new = [Drive c v]"
    using w n py_int2_encode_bit [OF assms(2), of "length cur"]
    by (intro exI [of _ "sim\<lparr>ports := assign_port c (encode (length cur) v) (ports sim),
                       trace := trace sim @ [SetPort c (encode (length cur) v)]\<rparr>"]
              exI [of _ "[SetPort c (encode (length cur) v)]"]) simp
qed

lemma drives_run:
  assumes "keeps_ports D"
  shows "drives (sim_run D t) N [Advance t]"
proof (rule drivesI)
  fix sim :: "'a xsi"
  assume n: "map fst (ports sim) = N"
  have "map fst (fst (D t (ports sim, design sim))) = map fst (ports sim)"
    using assms by (simp add: keeps_ports_def)
  with n show "\<exists>sim' new. sim_run D t sim = (Inr (), sim') \<and> map fst (ports sim') = N \<and>
          trace sim' = trace sim @ new \<and> map action_of new = [Advance t]"
    by (simp add: sim_run_apply)
qed

lemma drives_neg_edge:
  fixes sim0 :: "'d xsi" and D :: "'d dut"
  assumes "keeps_ports D" and "find_signal sim0 clk = Inr c"
  shows "drives (toggle_neg_edge D clk) (map fst (ports sim0)) [Drive c 0, Advance 5000]"
  unfolding toggle_neg_edge_def
  using drives_sequence_Cons [OF drives_write_bit [OF assms(2), of 0]
          drives_sequence_Cons [OF drives_run [OF assms(1)] drives_sequence_Nil]]
  by simp

lemma drives_pos_edge_empty:
  fixes sim0 :: "'d xsi" and D :: "'d dut"
  assumes "keeps_ports D" and "find_signal sim0 clk = Inr c"
  shows "drives (toggle_pos_edge D clk []) (map fst (ports sim0)) [Drive c 1, Advance 5000]"
  unfolding toggle_pos_edge_def comb_update_and_trace_def
  using drives_sequence_Cons [OF drives_write_bit [OF assms(2), of 1]
          drives_sequence_Cons [OF drives_run [OF assms(1)]
            drives_sequence_Cons [OF drives_succeed
              drives_sequence_Cons [OF drives_succeed drives_sequence_Nil]]]]
  by simp

lemma drives_pos_edge_one:
  fixes sim0 :: "'d xsi" and D :: "'d dut"
  assumes "keeps_ports D" and "find_signal sim0 clk = Inr c"
      and "find_signal sim0 q = Inr r" and "v = 0 \<or> v = 1"
  shows "drives (toggle_pos_edge D clk [(q, v)]) (map fst (ports sim0))
           [Drive c 1, Advance 5000, Drive r v]"
proof -
  have w: "drives (sequence (map (\<lambda>(sig, v). write_signal sig v) [(q, v)])
                      :: ('d xsi, unit) prog)
             (map fst (ports sim0)) [Drive r v]"
    using drives_sequence_Cons [OF drives_write_bit [OF assms(3,4)] drives_sequence_Nil]
    by simp
  show ?thesis
    unfolding toggle_pos_edge_def comb_update_and_trace_def
    using drives_sequence_Cons [OF drives_write_bit [OF assms(2), of 1]
            drives_sequence_Cons [OF drives_run [OF assms(1)]
              drives_sequence_Cons [OF w
                drives_sequence_Cons [OF drives_succeed drives_sequence_Nil]]]]
    by simp
qed

lemma drives_toggle_clk:
  assumes "drives (toggle_neg_edge D clk) N a" and "drives (toggle_pos_edge D clk stw) N b"
  shows "drives (toggle_clk D clk stw) N (a @ b)"
  unfolding toggle_clk_def
  using drives_sequence_Cons [OF assms(1) drives_sequence_Cons [OF assms(2) drives_sequence_Nil]]
  by simp

section \<open>Reset sequence\<close>

text \<open>
  Claim C8. With a design that keeps its ports and a clock and a reset signal that
  resolve, \<open>reset_rtlsim\<close> succeeds and drives the handle with exactly this sequence:
  clock 0, reset at its asserted level; two cycles (clock 0, time, clock 1, time) with
  nothing else written; one cycle whose rising edge is followed by the reset at its
  deasserted level; one last cycle with nothing else written. That is four clock
  cycles.
\<close>

theorem reset_sequence:
  fixes sim :: "'d xsi" and D :: "'d dut"
  assumes "keeps_ports D"
      and "find_signal sim clk_name = Inr c"
      and "find_signal sim rst_name = Inr r"
  shows "\<exists>sim' new.
           reset_rtlsim D rst_name active_low clk_name sim = (Inr (), sim') \<and>
           trace sim' = trace sim @ new \<and>
           map action_of new =
             [Drive c 0, Drive r (if active_low then 0 else 1),
              Drive c 0, Advance 5000, Drive c 1, Advance 5000,
              Drive c 0, Advance 5000, Drive c 1, Advance 5000,
              Drive c 0, Advance 5000, Drive c 1, Advance 5000,
              Drive r (if active_low then 1 else 0),
              Drive c 0, Advance 5000, Drive c 1, Advance 5000]"
proof -
  let ?N = "map fst (ports sim)"
  let ?a = "if active_low then 0 else (1::int)"
  let ?d = "if active_low then 1 else (0::int)"
  note neg = drives_neg_edge [OF assms(1,2)]
  have plain: "drives (toggle_clk D clk_name []) ?N
                 ([Drive c 0, Advance 5000] @ [Drive c 1, Advance 5000])"
    by (rule drives_toggle_clk [OF neg drives_pos_edge_empty [OF assms(1,2)]])
  have rel: "drives (toggle_clk D clk_name (dict_set rst_name ?d [])) ?N
               ([Drive c 0, Advance 5000] @ [Drive c 1, Advance 5000, Drive r ?d])"
    using drives_toggle_clk [OF neg drives_pos_edge_one [OF assms(1,2,3), of ?d]]
    by simp
  have c0: "drives (write_signal clk_name 0 :: ('d xsi, unit) prog) ?N [Drive c 0]"
    by (rule drives_write_bit [OF assms(2)]) simp
  have r0: "drives (write_signal rst_name ?a :: ('d xsi, unit) prog) ?N [Drive r ?a]"
    by (rule drives_write_bit [OF assms(3)]) simp
  have "drives (reset_rtlsim D rst_name active_low clk_name) ?N
          ([Drive c 0] @ [Drive r ?a] @
           ([Drive c 0, Advance 5000] @ [Drive c 1, Advance 5000]) @
           ([Drive c 0, Advance 5000] @ [Drive c 1, Advance 5000]) @
           ([Drive c 0, Advance 5000] @ [Drive c 1, Advance 5000, Drive r ?d]) @
           ([Drive c 0, Advance 5000] @ [Drive c 1, Advance 5000]) @ [])"
    unfolding reset_rtlsim_def
    using drives_sequence_Cons [OF c0 drives_sequence_Cons [OF r0
            drives_sequence_Cons [OF plain drives_sequence_Cons [OF plain
              drives_sequence_Cons [OF rel drives_sequence_Cons [OF plain
                drives_sequence_Nil]]]]]]
    by (simp add: numeral_2_eq_2)
  from drivesD [OF this refl] show ?thesis by auto
qed

text \<open>The active-low reset of the example handle under the idle design.\<close>

theorem reset_sequence_witness:
  "\<exists>sim' new.
     reset_rtlsim idle_dut ''ap_rst_n'' True ''ap_clk'' sim_quiet = (Inr (), sim') \<and>
     trace sim' = trace sim_quiet @ new \<and>
     map action_of new =
       [Drive ''ap_clk'' 0, Drive ''ap_rst_n'' 0,
        Drive ''ap_clk'' 0, Advance 5000, Drive ''ap_clk'' 1, Advance 5000,
        Drive ''ap_clk'' 0, Advance 5000, Drive ''ap_clk'' 1, Advance 5000,
        Drive ''ap_clk'' 0, Advance 5000, Drive ''ap_clk'' 1, Advance 5000,
        Drive ''ap_rst_n'' 1,
        Drive ''ap_clk'' 0, Advance 5000, Drive ''ap_clk'' 1, Advance 5000]"
  using reset_sequence [of idle_dut sim_quiet "''ap_clk''" "''ap_clk''" "''ap_rst_n''"
          "''ap_rst_n''" True]
  by (simp add: keeps_ports_def idle_dut_def sim_quiet_def quiet_ports_def find_signal_eq)

section \<open>The loop body and the counters\<close>

lemma on_sim_result:
  assumes "on_sim m st = (r, st')"
  shows "\<exists>s'. m (xsim st) = (r, s') \<and> st' = st\<lparr>xsim := s'\<rparr>"
  using assms by (auto simp: on_sim_def split: prod.splits)

lemma sequence_rel:
  assumes refl: "\<And>s. R s s"
      and trans: "\<And>a b c. R a b \<Longrightarrow> R b c \<Longrightarrow> R a c"
      and step: "\<And>m s r s'. m \<in> set ms \<Longrightarrow> m s = (r, s') \<Longrightarrow> R s s'"
      and run: "sequence ms s = (r, s')"
  shows "R s s'"
  using step run
proof (induction ms arbitrary: s)
  case Nil
  then show ?case using refl by (simp add: succeed_def)
next
  case (Cons m ms)
  obtain r1 s1 where m: "m s = (r1, s1)" by (cases "m s")
  have 1: "R s s1" using Cons.prems(1) [of m s r1 s1] m by simp
  show ?case
  proof (cases r1)
    case (Inl e)
    with Cons.prems(2) m have "s' = s1" by (simp add: pbind_def)
    with 1 show ?thesis by simp
  next
    case (Inr u)
    with Cons.prems(2) m have q: "sequence ms s1 = (r, s')" by (simp add: pbind_def)
    have "R s1 s'"
    proof (rule Cons.IH [OF _ q])
      fix m' s r s'
      assume "m' \<in> set ms" and "m' s = (r, s')"
      then show "R s s'" using Cons.prems(1) [of m' s r s'] by simp
    qed
    with 1 show ?thesis using trans by blast
  qed
qed

lemma cycle_body_frame:
  assumes "cycle D hook_preclk hook_postclk sname st = (r, st')"
  shows "body_frame st st'"
proof (rule sequence_rel [where R = body_frame, OF _ _ _ assms [unfolded cycle_def]])
  show "body_frame s s" for s :: "'a rtlsim" by (simp add: body_frame_def)
  show "body_frame a b \<Longrightarrow> body_frame b c \<Longrightarrow> body_frame a c" for a b c :: "'a rtlsim"
    by (simp add: body_frame_def)
  fix m and s s' :: "'a rtlsim" and r
  assume "m \<in> set [on_sim (run_hook hook_preclk), on_sim (toggle_neg_edge D ''ap_clk''),
           read_phase_inputs sname, read_phase_outputs sname, write_prep sname,
           (\<lambda>st. on_sim (toggle_pos_edge D ''ap_clk'' (signals_to_write st)) st),
           on_sim (run_hook hook_postclk)]"
     and "m s = (r, s')"
  then show "body_frame s s'"
    by (auto simp: read_phase_inputs_def read_phase_outputs_def write_prep_def
          body_frame_def split: prod.splits dest!: on_sim_result)
qed

lemma count_cycle_total: "total_cycle_count (count_cycle st) = total_cycle_count st + 1"
  by (simp add: count_cycle_def Let_def)

lemma count_cycle_output: "output_count (count_cycle st) = output_count st"
  by (simp add: count_cycle_def Let_def)

lemma count_cycle_no_change:
  "no_change_count (count_cycle st) =
     (if output_count st = old_output_count st then no_change_count st + 1 else 0)"
  by (simp add: count_cycle_def Let_def)

lemma count_cycle_old: "old_output_count (count_cycle st) = output_count st"
  by (simp add: count_cycle_def Let_def)

section \<open>Liveness\<close>

lemma stall_after_idle:
  assumes "idle_cycles D hook_preclk hook_postclk sname n st = Some st'"
      and "0 < n"
      and "no_change_count st + int n = t"
      and "old_output_count st = output_count st"
      and "output_count st \<noteq> target"
  shows "rtlsim_loop D hook_preclk hook_postclk sname target t st
           = Some (Inl SimulationStalledError, st') \<and>
         total_cycle_count st' = total_cycle_count st + int n \<and>
         no_change_count st' = t \<and> output_count st' = output_count st"
  using assms
proof (induction n arbitrary: st)
  case 0
  then show ?case by simp
next
  case (Suc n)
  obtain r st1 where c: "cycle D hook_preclk hook_postclk sname st = (r, st1)"
    by (cases "cycle D hook_preclk hook_postclk sname st")
  from Suc.prems(1) c obtain u where r: "r = Inr u"
    by (cases r) auto
  from Suc.prems(1) c r have o: "output_count st1 = output_count st"
    by (auto split: if_splits)
  from Suc.prems(1) c r o
  have i: "idle_cycles D hook_preclk hook_postclk sname n (count_cycle st1) = Some st'"
    by simp
  from cycle_body_frame [OF c] have f: "body_frame st st1" .
  let ?st2 = "count_cycle st1"
  have nc: "no_change_count ?st2 = no_change_count st + 1"
    using f o Suc.prems(4) by (simp add: count_cycle_no_change body_frame_def)
  have tc: "total_cycle_count ?st2 = total_cycle_count st + 1"
    using f by (simp add: count_cycle_total body_frame_def)
  have oc: "output_count ?st2 = output_count st"
    using o by (simp add: count_cycle_output)
  have oo: "old_output_count ?st2 = output_count ?st2"
    by (simp add: count_cycle_old count_cycle_output)
  show ?case
  proof (cases n)
    case 0
    with i have e: "st' = ?st2" by simp
    from 0 Suc.prems(3) nc have "no_change_count ?st2 = t" by simp
    then have "rtlsim_loop D hook_preclk hook_postclk sname target t st
                 = Some (Inl SimulationStalledError, ?st2)"
      using c r by (subst rtlsim_loop.simps) (simp add: Let_def)
    with e 0 nc tc oc Suc.prems(3) show ?thesis by simp
  next
    case (Suc k)
    then have pos: "0 < n" by simp
    from Suc.prems(3) nc have sum: "no_change_count ?st2 + int n = t" by simp
    with pos have ne: "no_change_count ?st2 \<noteq> t" by simp
    from oc Suc.prems(5) have nt: "output_count ?st2 \<noteq> target" by simp
    have "rtlsim_loop D hook_preclk hook_postclk sname target t st
            = rtlsim_loop D hook_preclk hook_postclk sname target t ?st2"
      using c r ne nt by (subst rtlsim_loop.simps) (simp add: Let_def)
    moreover note Suc.IH [OF i pos sum oo nt]
    ultimately show ?thesis using tc oc by simp
  qed
qed

lemma stall_after_progress:
  assumes "cycle D hook_preclk hook_postclk sname st = (Inr u, st1)"
      and "output_count st1 \<noteq> old_output_count st"
      and "output_count st1 \<noteq> target"
      and "1 \<le> t"
      and "idle_cycles D hook_preclk hook_postclk sname (nat t) (count_cycle st1) = Some st'"
  shows "no_change_count (count_cycle st1) = 0 \<and>
         rtlsim_loop D hook_preclk hook_postclk sname target t st
           = Some (Inl SimulationStalledError, st') \<and>
         total_cycle_count st' = total_cycle_count st + 1 + t"
proof -
  from cycle_body_frame [OF assms(1)] have f: "body_frame st st1" .
  let ?st2 = "count_cycle st1"
  have nc: "no_change_count ?st2 = 0"
    using f assms(2) by (simp add: count_cycle_no_change body_frame_def)
  have tc: "total_cycle_count ?st2 = total_cycle_count st + 1"
    using f by (simp add: count_cycle_total body_frame_def)
  have nt: "output_count ?st2 \<noteq> target" using assms(3) by (simp add: count_cycle_output)
  have oo: "old_output_count ?st2 = output_count ?st2"
    by (simp add: count_cycle_old count_cycle_output)
  have "rtlsim_loop D hook_preclk hook_postclk sname target t st
          = rtlsim_loop D hook_preclk hook_postclk sname target t ?st2"
    using assms(1,4) nc nt by (subst rtlsim_loop.simps) (simp add: Let_def)
  moreover have "0 < nat t" and "no_change_count ?st2 + int (nat t) = t"
    using assms(4) nc by simp_all
  note stall_after_idle [OF assms(5) this oo nt]
  ultimately show ?thesis using nc tc assms(4) by simp
qed

lemma setup_outputs_counters:
  assumes "setup_outputs sname (init_state sim ins outs) = (r, st0)"
  shows "total_cycle_count st0 = 0 \<and> no_change_count st0 = 0 \<and>
         old_output_count st0 = 0 \<and> output_count st0 = 0 \<and>
         io_inputs st0 = ins \<and> io_outputs st0 = outs \<and> signals_to_write st0 = []"
  using assms by (auto simp: setup_outputs_def init_state_def dest!: on_sim_result)

lemma stall_of_silent_run:
  assumes "1 \<le> t" and "target \<noteq> 0"
      and "setup_outputs sname (init_state sim ins outs) = (Inr u, st0)"
      and "idle_cycles D hook_preclk hook_postclk sname (nat t) st0 = Some st'"
  shows "rtlsim_multi_io D sim ins outs target sname t hook_preclk hook_postclk
           = Some (Inl SimulationStalledError, st') \<and>
         total_cycle_count st' = t"
proof -
  note c = setup_outputs_counters [OF assms(3)]
  have "0 < nat t" and "no_change_count st0 + int (nat t) = t"
   and "old_output_count st0 = output_count st0" and "output_count st0 \<noteq> target"
    using assms(1,2) c by simp_all
  from stall_after_idle [OF assms(4) this] c assms(1,3)
  show ?thesis by (simp add: rtlsim_multi_io_def)
qed

lemmas signal_eval =
  find_signal_eq get_port_value_def set_port_value_def read_signal_def write_signal_def
  py_int2_def strip_def strip_sign_def strip_prefix_0b_def py_isspace_def bin_digit_def
  py_suffix_def format_0b_def bin_str.simps

lemmas engine_eval =
  cycle_def on_sim_def run_hook_def toggle_neg_edge_def toggle_pos_edge_def
  comb_update_and_trace_def read_phase_inputs_def read_phase_outputs_def write_prep_def
  ready_and_valid_def sim_run_apply pbind_def succeed_def Let_def

lemma quiet_setup:
  "setup_outputs ''_V_V_'' (init_state sim_quiet [] [(''out0'', buf)]) =
     (Inr (), (init_state sim_quiet [] [(''out0'', buf)])
        \<lparr>xsim := sim_quiet\<lparr>ports := quiet_ports ''0'' ''1'',
                            trace := [SetPort ''out0_V_V_TREADY'' ''1'']\<rparr>\<rparr>)"
  by (simp add: setup_outputs_def init_state_def sim_quiet_def quiet_ports_def on_sim_def
        pbind_def succeed_def signal_eval)

lemma quiet_cycle:
  assumes "ports (xsim st) = quiet_ports k ''1''" and "length k = 1"
      and "io_inputs st = []" and "io_outputs st = [(''out0'', buf)]"
      and "signals_to_write st = []"
  shows "cycle idle_dut None None ''_V_V_'' st =
           (Inr (), st\<lparr>xsim := (xsim st)\<lparr>ports := quiet_ports ''1'' ''1'',
                          trace := trace (xsim st) @
                            [SetPort ''ap_clk'' ''0'', Run 5000,
                             SetPort ''ap_clk'' ''1'', Run 5000]\<rparr>\<rparr>)"
  using assms
  by (simp add: engine_eval signal_eval idle_dut_def quiet_ports_def)

lemma quiet_idle:
  assumes "ports (xsim st) = quiet_ports k ''1''" and "length k = 1"
      and "io_inputs st = []" and "io_outputs st = [(''out0'', buf)]"
      and "signals_to_write st = []"
  shows "\<exists>st'. idle_cycles idle_dut None None ''_V_V_'' n st = Some st'"
  using assms
proof (induction n arbitrary: st k)
  case 0
  then show ?case by simp
next
  case (Suc n)
  let ?st1 = "st\<lparr>xsim := (xsim st)\<lparr>ports := quiet_ports ''1'' ''1'',
                 trace := trace (xsim st) @
                   [SetPort ''ap_clk'' ''0'', Run 5000, SetPort ''ap_clk'' ''1'', Run 5000]\<rparr>\<rparr>"
  have c: "cycle idle_dut None None ''_V_V_'' st = (Inr (), ?st1)"
    by (rule quiet_cycle [OF Suc.prems])
  have "\<exists>st'. idle_cycles idle_dut None None ''_V_V_'' n (count_cycle ?st1) = Some st'"
    by (rule Suc.IH [where k = "''1''"]) (simp_all add: count_cycle_def Let_def Suc.prems)
  with c show ?case by simp
qed

lemma pulse_setup:
  "setup_outputs ''_V_V_'' (init_state sim_pulse [] [(''out0'', buf)]) =
     (Inr (), (init_state sim_pulse [] [(''out0'', buf)])
        \<lparr>xsim := sim_pulse\<lparr>ports := pulse_ports ''0'' ''1'' ''0'',
                            trace := [SetPort ''out0_V_V_TREADY'' ''1'']\<rparr>\<rparr>)"
  by (simp add: setup_outputs_def init_state_def sim_pulse_def pulse_ports_def on_sim_def
        pbind_def succeed_def signal_eval)

lemma pulse_first_cycle:
  assumes "ports (xsim st) = pulse_ports k ''1'' v" and "length k = 1"
      and "design (xsim st) = 0"
      and "io_inputs st = []" and "io_outputs st = [(''out0'', buf)]"
      and "signals_to_write st = []"
  shows "cycle pulse_dut None None ''_V_V_'' st =
           (Inr (), st\<lparr>xsim := (xsim st)\<lparr>ports := pulse_ports ''1'' ''1'' ''0'',
                          design := 2,
                          trace := trace (xsim st) @
                            [SetPort ''ap_clk'' ''0'', Run 5000,
                             SetPort ''ap_clk'' ''1'', Run 5000]\<rparr>,
                        io_outputs := [(''out0'', buf @ [2])],
                        output_count := output_count st + 1\<rparr>)"
  using assms
  by (simp add: engine_eval signal_eval pulse_dut_def pulse_ports_def numeral_2_eq_2)

lemma pulse_later_cycle:
  assumes "ports (xsim st) = pulse_ports k ''1'' v" and "length k = 1"
      and "design (xsim st) = Suc m"
      and "io_inputs st = []" and "io_outputs st = [(''out0'', buf)]"
      and "signals_to_write st = []"
  shows "cycle pulse_dut None None ''_V_V_'' st =
           (Inr (), st\<lparr>xsim := (xsim st)\<lparr>ports := pulse_ports ''1'' ''1'' ''0'',
                          design := Suc (Suc (Suc m)),
                          trace := trace (xsim st) @
                            [SetPort ''ap_clk'' ''0'', Run 5000,
                             SetPort ''ap_clk'' ''1'', Run 5000]\<rparr>\<rparr>)"
  using assms
  by (simp add: engine_eval signal_eval pulse_dut_def pulse_ports_def)

lemma pulse_idle:
  assumes "ports (xsim st) = pulse_ports k ''1'' v" and "length k = 1"
      and "design (xsim st) = Suc m"
      and "io_inputs st = []" and "io_outputs st = [(''out0'', buf)]"
      and "signals_to_write st = []"
  shows "\<exists>st'. idle_cycles pulse_dut None None ''_V_V_'' n st = Some st'"
  using assms
proof (induction n arbitrary: st k v m)
  case 0
  then show ?case by simp
next
  case (Suc n)
  let ?st1 = "st\<lparr>xsim := (xsim st)\<lparr>ports := pulse_ports ''1'' ''1'' ''0'',
                 design := Suc (Suc (Suc m)),
                 trace := trace (xsim st) @
                   [SetPort ''ap_clk'' ''0'', Run 5000, SetPort ''ap_clk'' ''1'', Run 5000]\<rparr>\<rparr>"
  have c: "cycle pulse_dut None None ''_V_V_'' st = (Inr (), ?st1)"
    by (rule pulse_later_cycle [OF Suc.prems])
  have "\<exists>st'. idle_cycles pulse_dut None None ''_V_V_'' n (count_cycle ?st1) = Some st'"
    by (rule Suc.IH [where k = "''1''" and v = "''0''" and m = "Suc (Suc m)"])
       (simp_all add: count_cycle_def Let_def Suc.prems)
  with c show ?case by simp
qed

section \<open>The pass that reaches the target\<close>

lemma success_when_target_reached:
  assumes "cycle D hook_preclk hook_postclk sname st = (Inr u, st1)"
      and "output_count st1 = target"
      and "no_change_count (count_cycle st1) \<noteq> t"
  shows "rtlsim_loop D hook_preclk hook_postclk sname target t st
           = Some (Inr (total_cycle_count st + 1), count_cycle st1)"
proof -
  have "total_cycle_count (count_cycle st1) = total_cycle_count st + 1"
    using cycle_body_frame [OF assms(1)] by (simp add: count_cycle_total body_frame_def)
  then show ?thesis
    using assms by (subst rtlsim_loop.simps) (simp add: Let_def count_cycle_output)
qed

section \<open>Liveness counter\<close>

text \<open>
  Claim C5 as stated fails for a target of 0: with threshold 3 and the design that
  never produces output, the first cycle already finds the output count equal to the
  target, and the engine returns 1 instead of raising after 3 cycles.
\<close>

theorem silent_run_target0_counterexample:
  "map_option fst
     (rtlsim_multi_io idle_dut sim_quiet [] [(''out0'', [])] 0 ''_V_V_'' 3 None None)
   = Some (Inr 1)"
  by (simp add: rtlsim_multi_io_def quiet_setup)
     (subst rtlsim_loop.simps,
      simp add: quiet_cycle init_state_def sim_quiet_def count_cycle_def Let_def)

text \<open>
  Claim C5, amended: the last sentence holds for a target other than 0. For every
  threshold \<open>t \<ge> 1\<close>:
  \<^item> the counter update after a loop body adds one when the output count equals the
    one remembered from the previous cycle, and resets to zero otherwise;
  \<^item> from a loop head whose counter is \<open>t - n\<close>, \<open>n > 0\<close> passes without an output word
    and without reaching the target end in \<open>SimulationStalledError\<close> after exactly
    \<open>n\<close> more cycles;
  \<^item> a pass that reads an output word resets the counter, and \<open>t\<close> silent passes after
    it end in the error exactly \<open>t\<close> cycles later;
  \<^item> a whole run with a target other than 0 whose first \<open>t\<close> passes read no output
    word raises after exactly \<open>t\<close> cycles.
\<close>

theorem liveness_counter_stall:
  assumes "1 \<le> t"
  shows "(\<forall>st :: 'd rtlsim.
            no_change_count (count_cycle st) =
              (if output_count st = old_output_count st then no_change_count st + 1 else 0)) \<and>
         (\<forall>(st :: 'd rtlsim) n st'.
            idle_cycles D hook_preclk hook_postclk sname n st = Some st' \<and> 0 < n \<and>
            no_change_count st + int n = t \<and> old_output_count st = output_count st \<and>
            output_count st \<noteq> target \<longrightarrow>
            rtlsim_loop D hook_preclk hook_postclk sname target t st
              = Some (Inl SimulationStalledError, st') \<and>
            total_cycle_count st' = total_cycle_count st + int n) \<and>
         (\<forall>(st :: 'd rtlsim) u st1 st'.
            cycle D hook_preclk hook_postclk sname st = (Inr u, st1) \<and>
            output_count st1 \<noteq> old_output_count st \<and> output_count st1 \<noteq> target \<and>
            idle_cycles D hook_preclk hook_postclk sname (nat t) (count_cycle st1) = Some st'
            \<longrightarrow>
            no_change_count (count_cycle st1) = 0 \<and>
            rtlsim_loop D hook_preclk hook_postclk sname target t st
              = Some (Inl SimulationStalledError, st') \<and>
            total_cycle_count st' = total_cycle_count st + 1 + t) \<and>
         (\<forall>sim ins outs u st0 st'.
            target \<noteq> 0 \<and>
            setup_outputs sname (init_state sim ins outs) = (Inr u, st0) \<and>
            idle_cycles D hook_preclk hook_postclk sname (nat t) st0 = Some st' \<longrightarrow>
            rtlsim_multi_io D sim ins outs target sname t hook_preclk hook_postclk
              = Some (Inl SimulationStalledError, st') \<and>
            total_cycle_count st' = t)"
proof (intro conjI allI impI)
  fix st :: "'d rtlsim"
  show "no_change_count (count_cycle st) =
          (if output_count st = old_output_count st then no_change_count st + 1 else 0)"
    by (rule count_cycle_no_change)
next
  fix st :: "'d rtlsim" and n st'
  assume h: "idle_cycles D hook_preclk hook_postclk sname n st = Some st' \<and> 0 < n \<and>
             no_change_count st + int n = t \<and> old_output_count st = output_count st \<and>
             output_count st \<noteq> target"
  then have s: "rtlsim_loop D hook_preclk hook_postclk sname target t st
               = Some (Inl SimulationStalledError, st') \<and>
             total_cycle_count st' = total_cycle_count st + int n \<and>
             no_change_count st' = t \<and> output_count st' = output_count st"
    by (intro stall_after_idle) auto
  from s show "rtlsim_loop D hook_preclk hook_postclk sname target t st
               = Some (Inl SimulationStalledError, st')" by simp
  from s show "total_cycle_count st' = total_cycle_count st + int n" by simp
next
  fix st :: "'d rtlsim" and u st1 st'
  assume h: "cycle D hook_preclk hook_postclk sname st = (Inr u, st1) \<and>
             output_count st1 \<noteq> old_output_count st \<and> output_count st1 \<noteq> target \<and>
             idle_cycles D hook_preclk hook_postclk sname (nat t) (count_cycle st1) = Some st'"
  then have s: "no_change_count (count_cycle st1) = 0 \<and>
             rtlsim_loop D hook_preclk hook_postclk sname target t st
               = Some (Inl SimulationStalledError, st') \<and>
             total_cycle_count st' = total_cycle_count st + 1 + t"
    using assms by (intro stall_after_progress [where u = u]) auto
  from s show "no_change_count (count_cycle st1) = 0" by simp
  from s show "rtlsim_loop D hook_preclk hook_postclk sname target t st
               = Some (Inl SimulationStalledError, st')" by simp
  from s show "total_cycle_count st' = total_cycle_count st + 1 + t" by simp
next
  fix sim :: "'d xsi" and ins outs u st0 st'
  assume h: "target \<noteq> 0 \<and>
             setup_outputs sname (init_state sim ins outs) = (Inr u, st0) \<and>
             idle_cycles D hook_preclk hook_postclk sname (nat t) st0 = Some st'"
  then have s: "rtlsim_multi_io D sim ins outs target sname t hook_preclk hook_postclk
               = Some (Inl SimulationStalledError, st') \<and>
             total_cycle_count st' = t"
    using assms by (intro stall_of_silent_run [where u = u and ?st0.0 = st0]) auto
  from s show "rtlsim_multi_io D sim ins outs target sname t hook_preclk hook_postclk
               = Some (Inl SimulationStalledError, st')" by simp
  from s show "total_cycle_count st' = t" by simp
qed

text \<open>
  Threshold 3 on the example handles: the quiet design with target 1 raises after
  exactly 3 cycles; the pulse design with target 2 delivers its one word in the first
  cycle, which resets the counter, and raises 3 silent cycles later, at cycle 4.
\<close>

theorem liveness_counter_stall_witness:
  "(\<exists>st'. rtlsim_multi_io idle_dut sim_quiet [] [(''out0'', [])] 1 ''_V_V_'' 3 None None
            = Some (Inl SimulationStalledError, st') \<and>
          total_cycle_count st' = 3) \<and>
   (\<exists>st'. rtlsim_loop pulse_dut None None ''_V_V_'' 2 3
            (snd (setup_outputs ''_V_V_'' (init_state sim_pulse [] [(''out0'', [])])))
            = Some (Inl SimulationStalledError, st') \<and>
          total_cycle_count st' = 4)"
proof
  let ?q0 = "(init_state sim_quiet [] [(''out0'', [])])
               \<lparr>xsim := sim_quiet\<lparr>ports := quiet_ports ''0'' ''1'',
                                   trace := [SetPort ''out0_V_V_TREADY'' ''1'']\<rparr>\<rparr>"
  have "\<exists>st'. idle_cycles idle_dut None None ''_V_V_'' (nat 3) ?q0 = Some st'"
    by (rule quiet_idle [where k = "''0''" and buf = "[]"]) (simp_all add: init_state_def)
  then obtain st' where i: "idle_cycles idle_dut None None ''_V_V_'' (nat 3) ?q0 = Some st'"
    by blast
  have "(1::int) \<le> 3" by simp
  from liveness_counter_stall [OF this, where D = idle_dut and hook_preclk = None
         and hook_postclk = None and sname = "''_V_V_''" and target = 1,
         THEN conjunct2, THEN conjunct2, THEN conjunct2, rule_format,
         of sim_quiet "[]" "[(''out0'', [])]" "()" ?q0 st']
       quiet_setup [of "[]"] i
  show "\<exists>st'. rtlsim_multi_io idle_dut sim_quiet [] [(''out0'', [])] 1 ''_V_V_'' 3 None None
            = Some (Inl SimulationStalledError, st') \<and> total_cycle_count st' = 3"
    by simp
next
  let ?p0 = "(init_state sim_pulse [] [(''out0'', [])])
               \<lparr>xsim := sim_pulse\<lparr>ports := pulse_ports ''0'' ''1'' ''0'',
                                   trace := [SetPort ''out0_V_V_TREADY'' ''1'']\<rparr>\<rparr>"
  let ?p1 = "?p0\<lparr>xsim := (xsim ?p0)\<lparr>ports := pulse_ports ''1'' ''1'' ''0'',
                          design := 2,
                          trace := trace (xsim ?p0) @
                            [SetPort ''ap_clk'' ''0'', Run 5000,
                             SetPort ''ap_clk'' ''1'', Run 5000]\<rparr>,
                  io_outputs := [(''out0'', [] @ [2])],
                  output_count := output_count ?p0 + 1\<rparr>"
  have c: "cycle pulse_dut None None ''_V_V_'' ?p0 = (Inr (), ?p1)"
    by (rule pulse_first_cycle [where k = "''0''" and v = "''0''"])
       (simp_all add: init_state_def sim_pulse_def)
  have "\<exists>st'. idle_cycles pulse_dut None None ''_V_V_'' (nat 3) (count_cycle ?p1) = Some st'"
    by (rule pulse_idle [where k = "''1''" and v = "''0''" and m = 1 and buf = "[2]"])
       (simp_all add: count_cycle_def Let_def init_state_def)
  then obtain st' where
    i: "idle_cycles pulse_dut None None ''_V_V_'' (nat 3) (count_cycle ?p1) = Some st'"
    by blast
  have "(1::int) \<le> 3" by simp
  from liveness_counter_stall [OF this, where D = pulse_dut and hook_preclk = None
         and hook_postclk = None and sname = "''_V_V_''" and target = 2,
         THEN conjunct2, THEN conjunct2, THEN conjunct1, rule_format,
         of ?p0 "()" ?p1 st'] c i
  have "rtlsim_loop pulse_dut None None ''_V_V_'' 2 3 ?p0
          = Some (Inl SimulationStalledError, st') \<and>
        total_cycle_count st' = total_cycle_count ?p0 + 1 + 3"
    by (simp add: init_state_def)
  then show "\<exists>st'. rtlsim_loop pulse_dut None None ''_V_V_'' 2 3
            (snd (setup_outputs ''_V_V_'' (init_state sim_pulse [] [(''out0'', [])])))
            = Some (Inl SimulationStalledError, st') \<and> total_cycle_count st' = 4"
    unfolding pulse_setup snd_conv by (auto simp: init_state_def)
qed

section \<open>The phases of one cycle\<close>

lemma pbind_success:
  assumes "pbind m f s = (Inr u, s')"
  shows "\<exists>x s1. m s = (Inr x, s1) \<and> f x s1 = (Inr (), s')"
  using assms by (cases "m s") (auto simp: pbind_def split: sum.splits)

lemma sequence_Cons_success:
  assumes "sequence (m # ms) s = (Inr (), s')"
  shows "\<exists>s1. m s = (Inr (), s1) \<and> sequence ms s1 = (Inr (), s')"
  using pbind_success [of m "\<lambda>_. sequence ms" s "()" s'] assms by auto

lemma ready_and_valid_iff:
  assumes "ready_and_valid s x = Inr a"
  shows "a = (read_signal s (x @ ''TREADY'') = Inr 1 \<and> read_signal s (x @ ''TVALID'') = Inr 1)"
  using assms by (auto simp: ready_and_valid_def split: sum.splits if_splits)

lemma read_inputs_ok:
  assumes "read_inputs s sname ins = (Inr (), ins')"
  shows "ins' = map (\<lambda>(inp, q).
                  (inp, if read_signal s (inp @ sname @ ''TREADY'') = Inr 1 \<and>
                           read_signal s (inp @ sname @ ''TVALID'') = Inr 1
                        then drop 1 q else q)) ins"
  using assms
proof (induction ins arbitrary: ins')
  case Nil
  then show ?case by simp
next
  case (Cons p ins)
  obtain inp q where p: "p = (inp, q)" by (cases p)
  from Cons.prems p obtain a where a: "ready_and_valid s (inp @ sname) = Inr a"
    by (cases "ready_and_valid s (inp @ sname)") auto
  obtain r rest' where r: "read_inputs s sname ins = (r, rest')"
    by (cases "read_inputs s sname ins")
  from Cons.prems p a r have "r = Inr ()" and i: "ins' = (inp, if a then drop 1 q else q) # rest'"
    by auto
  with r have "rest' = map (\<lambda>(inp, q).
                  (inp, if read_signal s (inp @ sname @ ''TREADY'') = Inr 1 \<and>
                           read_signal s (inp @ sname @ ''TVALID'') = Inr 1
                        then drop 1 q else q)) ins"
    using Cons.IH by simp
  with i p ready_and_valid_iff [OF a] show ?case by simp
qed

lemma map_of_dict_set: "map_of (dict_set k v d) k' = (if k' = k then Some v else map_of d k')"
  by (induction d) auto

lemma stage_key_cases:
  assumes "inp @ sname @ x = inp' @ sname @ y"
      and "x = ''TVALID'' \<or> x = ''TDATA''" and "y = ''TVALID'' \<or> y = ''TDATA''"
  shows "inp = inp' \<and> x = y"
proof -
  have xy: "x = y"
  proof (rule ccontr)
    assume "x \<noteq> y"
    with assms(2,3) have "last (inp @ sname @ x) \<noteq> last (inp' @ sname @ y)" by auto
    with assms(1) show False by simp
  qed
  with assms(1) show ?thesis by simp
qed

lemma stage_inputs_other:
  assumes "\<forall>p \<in> set ins. key \<noteq> fst p @ sname @ ''TVALID'' \<and> key \<noteq> fst p @ sname @ ''TDATA''"
  shows "map_of (stage_inputs sname ins stw) key = map_of stw key"
  using assms by (induction ins arbitrary: stw) (auto simp: map_of_dict_set)

lemma stage_inputs_staged:
  assumes "distinct (map fst ins)" and "(inp, q) \<in> set ins"
  shows "map_of (stage_inputs sname ins stw) (inp @ sname @ ''TVALID'')
           = Some (if q = [] then 0 else 1) \<and>
         map_of (stage_inputs sname ins stw) (inp @ sname @ ''TDATA'')
           = Some (case q of [] \<Rightarrow> 0 | x # _ \<Rightarrow> x)"
  using assms
proof (induction ins arbitrary: stw)
  case Nil
  then show ?case by simp
next
  case (Cons p ins)
  obtain i0 q0 where p: "p = (i0, q0)" by (cases p)
  show ?case
  proof (cases "(inp, q) = p")
    case True
    with p have e: "i0 = inp" "q0 = q" by simp_all
    from Cons.prems(1) p e have "inp \<notin> fst ` set ins" by simp
    then have o: "\<forall>p' \<in> set ins. inp @ sname @ x \<noteq> fst p' @ sname @ ''TVALID'' \<and>
                    inp @ sname @ x \<noteq> fst p' @ sname @ ''TDATA''"
      if x: "x = ''TVALID'' \<or> x = ''TDATA''" for x
    proof (intro ballI conjI notI)
      fix p'
      assume m: "p' \<in> set ins"
      with \<open>inp \<notin> fst ` set ins\<close> have ne: "inp \<noteq> fst p'" by auto
      {
        assume "inp @ sname @ x = fst p' @ sname @ ''TVALID''"
        from stage_key_cases [OF this x] ne show False by simp
      }
      {
        assume "inp @ sname @ x = fst p' @ sname @ ''TDATA''"
        from stage_key_cases [OF this x] ne show False by simp
      }
    qed
    have d: "inp @ sname @ ''TVALID'' \<noteq> inp @ sname @ ''TDATA''" by simp
    show ?thesis
      using p e d stage_inputs_other [OF o [of "''TVALID''"]]
            stage_inputs_other [OF o [of "''TDATA''"]]
      by (simp add: map_of_dict_set)
  next
    case False
    with Cons.prems(2) have "(inp, q) \<in> set ins" by simp
    moreover from Cons.prems(1) have "distinct (map fst ins)" by simp
    ultimately show ?thesis using Cons.IH p by simp
  qed
qed

section \<open>What a cycle writes, and when\<close>

lemma write_signal_success:
  assumes "write_signal q v s = (Inr (), s')"
  shows "\<exists>n cur. find_signal s q = Inr n \<and> get_port_value s n = Inr cur \<and>
           s' = s\<lparr>ports := assign_port n (encode (length cur) v) (ports s),
                  trace := trace s @ [SetPort n (encode (length cur) v)]\<rparr>"
  using assms
  by (auto simp: write_signal_def set_port_value_def encode_def Let_def
           split: sum.splits if_splits)

lemma write_all_trace:
  assumes "sequence (map (\<lambda>(sig, v). write_signal sig v) kvs) s = (Inr (), s')"
  shows "map fst (ports s') = map fst (ports s) \<and>
         (\<exists>ws. trace s' = trace s @ ws \<and>
            list_all2 (\<lambda>e kv. \<exists>n w. e = SetPort n (encode w (snd kv)) \<and>
                                 find_signal s (fst kv) = Inr n) ws kvs)"
  using assms
proof (induction kvs arbitrary: s)
  case Nil
  then show ?case by (simp add: succeed_def)
next
  case (Cons kv kvs)
  obtain k v where kv: "kv = (k, v)" by (cases kv)
  from Cons.prems kv
  have "sequence (write_signal k v # map (\<lambda>(sig, v). write_signal sig v) kvs) s = (Inr (), s')"
    by simp
  from sequence_Cons_success [OF this] obtain s1 where
    w: "write_signal k v s = (Inr (), s1)" and
    r: "sequence (map (\<lambda>(sig, v). write_signal sig v) kvs) s1 = (Inr (), s')"
    by blast
  from write_signal_success [OF w] obtain n cur where
    n: "find_signal s k = Inr n" and "get_port_value s n = Inr cur" and
    s1: "s1 = s\<lparr>ports := assign_port n (encode (length cur) v) (ports s),
                 trace := trace s @ [SetPort n (encode (length cur) v)]\<rparr>"
    by auto
  from s1 have names: "map fst (ports s1) = map fst (ports s)" by simp
  from Cons.IH [OF r] obtain ws where
    1: "map fst (ports s') = map fst (ports s1)" and
    2: "trace s' = trace s1 @ ws" and
    3: "list_all2 (\<lambda>e kv. \<exists>n w. e = SetPort n (encode w (snd kv)) \<and>
                            find_signal s1 (fst kv) = Inr n) ws kvs"
    by blast
  have f: "find_signal s1 x = find_signal s x" for x
    using names by (rule find_signal_cong)
  have A: "trace s' = trace s @ (SetPort n (encode (length cur) v) # ws)"
    using 2 s1 by simp
  have B: "list_all2 (\<lambda>e kv. \<exists>n w. e = SetPort n (encode w (snd kv)) \<and>
                            find_signal s (fst kv) = Inr n)
                   (SetPort n (encode (length cur) v) # ws) (kv # kvs)"
    using 3 n kv by (auto simp: f)
  show ?case
  proof (intro conjI exI)
    show "map fst (ports s') = map fst (ports s)" using 1 names by simp
    show "trace s' = trace s @ (SetPort n (encode (length cur) v) # ws)" by (rule A)
    show "list_all2 (\<lambda>e kv. \<exists>n w. e = SetPort n (encode w (snd kv)) \<and>
                            find_signal s (fst kv) = Inr n)
                   (SetPort n (encode (length cur) v) # ws) (kv # kvs)" by (rule B)
  qed
qed

lemma neg_edge_success:
  assumes "toggle_neg_edge D clk s = (Inr (), s1)"
  shows "\<exists>c zeros. find_signal s clk = Inr c \<and> py_int2 zeros = Inr 0 \<and>
           trace s1 = trace s @ [SetPort c zeros, Run 5000]"
proof -
  from assms obtain s' where
    w: "write_signal clk 0 s = (Inr (), s')" and
    r: "sequence [sim_run D 5000] s' = (Inr (), s1)"
    unfolding toggle_neg_edge_def
    using sequence_Cons_success [of "write_signal clk 0" "[sim_run D 5000]" s s1] by blast
  from write_signal_success [OF w] obtain c cur where
    c: "find_signal s clk = Inr c" and "get_port_value s c = Inr cur" and
    s': "s' = s\<lparr>ports := assign_port c (encode (length cur) 0) (ports s),
                 trace := trace s @ [SetPort c (encode (length cur) 0)]\<rparr>"
    by auto
  have "py_int2 (encode (length cur) 0) = Inr 0" by (rule py_int2_encode_bit) simp
  moreover from r s' have "trace s1 = trace s @ [SetPort c (encode (length cur) 0), Run 5000]"
    by (auto simp: pbind_def sim_run_apply succeed_def)
  ultimately show ?thesis using c by blast
qed

lemma pos_edge_success:
  assumes "toggle_pos_edge D clk stw s1 = (Inr (), s3)"
  shows "\<exists>c ones ws. find_signal s1 clk = Inr c \<and> py_int2 ones = Inr 1 \<and>
           trace s3 = trace s1 @ [SetPort c ones, Run 5000] @ ws \<and>
           list_all2 (\<lambda>e kv. \<exists>n w. e = SetPort n (encode w (snd kv)) \<and>
                                find_signal s3 (fst kv) = Inr n) ws stw"
proof -
  from assms obtain s' where
    w: "write_signal clk 1 s1 = (Inr (), s')" and
    r: "sequence [sim_run D 5000,
                  if stw \<noteq> [] then sequence (map (\<lambda>(sig, v). write_signal sig v) stw)
                  else succeed (),
                  comb_update_and_trace] s' = (Inr (), s3)"
    unfolding toggle_pos_edge_def
    using sequence_Cons_success [of "write_signal clk 1" _ s1 s3] by blast
  from write_signal_success [OF w] obtain c cur where
    c: "find_signal s1 clk = Inr c" and "get_port_value s1 c = Inr cur" and
    s': "s' = s1\<lparr>ports := assign_port c (encode (length cur) 1) (ports s1),
                  trace := trace s1 @ [SetPort c (encode (length cur) 1)]\<rparr>"
    by auto
  have one: "py_int2 (encode (length cur) 1) = Inr 1" by (rule py_int2_encode_bit) simp
  from sequence_Cons_success [OF r] obtain s2 where
    run: "sim_run D 5000 s' = (Inr (), s2)" and
    r2: "sequence [if stw \<noteq> [] then sequence (map (\<lambda>(sig, v). write_signal sig v) stw)
                   else succeed (),
                   comb_update_and_trace] s2 = (Inr (), s3)"
    by blast
  from run have "trace s2 = trace s' @ [Run 5000]"
    by (auto simp: sim_run_apply)
  with s' have t2: "trace s2 = trace s1 @ [SetPort c (encode (length cur) 1), Run 5000]"
    by simp
  have same: "(if stw \<noteq> [] then sequence (map (\<lambda>(sig, v). write_signal sig v) stw)
               else succeed ()) = sequence (map (\<lambda>(sig, v). write_signal sig v) stw)"
    by (cases stw) simp_all
  from r2 have "sequence (map (\<lambda>(sig, v). write_signal sig v) stw) s2 = (Inr (), s3)"
    unfolding same
    by (auto simp: pbind_def comb_update_and_trace_def succeed_def split: sum.splits prod.splits)
  from write_all_trace [OF this] obtain ws where
    n: "map fst (ports s3) = map fst (ports s2)" and
    t3: "trace s3 = trace s2 @ ws" and
    l: "list_all2 (\<lambda>e kv. \<exists>n w. e = SetPort n (encode w (snd kv)) \<and>
                            find_signal s2 (fst kv) = Inr n) ws stw"
    by blast
  have "find_signal s2 x = find_signal s3 x" for x
    using n [symmetric] by (rule find_signal_cong)
  with l have "list_all2 (\<lambda>e kv. \<exists>n w. e = SetPort n (encode w (snd kv)) \<and>
                            find_signal s3 (fst kv) = Inr n) ws stw"
    by simp
  with c one t2 t3 show ?thesis by auto
qed

lemma cycle_success:
  assumes "cycle D hook_preclk hook_postclk sname st = (Inr (), st')"
  shows "\<exists>s0 s1 s3 s4 ins' outs' n'.
           run_hook hook_preclk (xsim st) = (Inr (), s0) \<and>
           toggle_neg_edge D ''ap_clk'' s0 = (Inr (), s1) \<and>
           read_inputs s1 sname (io_inputs st) = (Inr (), ins') \<and>
           read_outputs s1 sname (io_outputs st) (output_count st) = (Inr (), outs', n') \<and>
           toggle_pos_edge D ''ap_clk'' (stage_inputs sname ins' (signals_to_write st)) s1
             = (Inr (), s3) \<and>
           run_hook hook_postclk s3 = (Inr (), s4) \<and>
           st' = st\<lparr>xsim := s4, io_inputs := ins', io_outputs := outs', output_count := n',
                    signals_to_write := stage_inputs sname ins' (signals_to_write st)\<rparr>"
proof -
  from assms [unfolded cycle_def] obtain a where
    1: "on_sim (run_hook hook_preclk) st = (Inr (), a)" and
    r1: "sequence [on_sim (toggle_neg_edge D ''ap_clk''), read_phase_inputs sname,
           read_phase_outputs sname, write_prep sname,
           (\<lambda>st. on_sim (toggle_pos_edge D ''ap_clk'' (signals_to_write st)) st),
           on_sim (run_hook hook_postclk)] a = (Inr (), st')"
    using sequence_Cons_success [of "on_sim (run_hook hook_preclk)" _ st st'] by blast
  from sequence_Cons_success [OF r1] obtain b where
    2: "on_sim (toggle_neg_edge D ''ap_clk'') a = (Inr (), b)" and
    r2: "sequence [read_phase_inputs sname, read_phase_outputs sname, write_prep sname,
           (\<lambda>st. on_sim (toggle_pos_edge D ''ap_clk'' (signals_to_write st)) st),
           on_sim (run_hook hook_postclk)] b = (Inr (), st')"
    by blast
  from sequence_Cons_success [OF r2] obtain c where
    3: "read_phase_inputs sname b = (Inr (), c)" and
    r3: "sequence [read_phase_outputs sname, write_prep sname,
           (\<lambda>st. on_sim (toggle_pos_edge D ''ap_clk'' (signals_to_write st)) st),
           on_sim (run_hook hook_postclk)] c = (Inr (), st')"
    by blast
  from sequence_Cons_success [OF r3] obtain d where
    4: "read_phase_outputs sname c = (Inr (), d)" and
    r4: "sequence [write_prep sname,
           (\<lambda>st. on_sim (toggle_pos_edge D ''ap_clk'' (signals_to_write st)) st),
           on_sim (run_hook hook_postclk)] d = (Inr (), st')"
    by blast
  from sequence_Cons_success [OF r4] obtain e where
    5: "write_prep sname d = (Inr (), e)" and
    r5: "sequence [(\<lambda>st. on_sim (toggle_pos_edge D ''ap_clk'' (signals_to_write st)) st),
           on_sim (run_hook hook_postclk)] e = (Inr (), st')"
    by blast
  from sequence_Cons_success [OF r5] obtain f where
    6: "on_sim (toggle_pos_edge D ''ap_clk'' (signals_to_write e)) e = (Inr (), f)" and
    r6: "sequence [on_sim (run_hook hook_postclk)] f = (Inr (), st')"
    by blast
  from sequence_Cons_success [OF r6] have
    7: "on_sim (run_hook hook_postclk) f = (Inr (), st')"
    by (auto simp: succeed_def)
  from on_sim_result [OF 1] obtain s0 where
    h0: "run_hook hook_preclk (xsim st) = (Inr (), s0)" and a: "a = st\<lparr>xsim := s0\<rparr>"
    by blast
  from on_sim_result [OF 2] a obtain s1 where
    h1: "toggle_neg_edge D ''ap_clk'' s0 = (Inr (), s1)" and b: "b = st\<lparr>xsim := s1\<rparr>"
    by auto
  from 3 b obtain ins' where
    h2: "read_inputs s1 sname (io_inputs st) = (Inr (), ins')" and
    c: "c = st\<lparr>xsim := s1, io_inputs := ins'\<rparr>"
    by (auto simp: read_phase_inputs_def split: prod.splits)
  from 4 c obtain outs' n' where
    h3: "read_outputs s1 sname (io_outputs st) (output_count st) = (Inr (), outs', n')" and
    d: "d = st\<lparr>xsim := s1, io_inputs := ins', io_outputs := outs', output_count := n'\<rparr>"
    by (auto simp: read_phase_outputs_def split: prod.splits)
  from 5 d have
    e: "e = st\<lparr>xsim := s1, io_inputs := ins', io_outputs := outs', output_count := n',
               signals_to_write := stage_inputs sname ins' (signals_to_write st)\<rparr>"
    by (auto simp: write_prep_def)
  from on_sim_result [OF 6] e obtain s3 where
    h4: "toggle_pos_edge D ''ap_clk'' (stage_inputs sname ins' (signals_to_write st)) s1
           = (Inr (), s3)" and
    f: "f = e\<lparr>xsim := s3\<rparr>"
    by auto
  from on_sim_result [OF 7] f obtain s4 where
    h5: "run_hook hook_postclk s3 = (Inr (), s4)" and g: "st' = f\<lparr>xsim := s4\<rparr>"
    by auto
  from g f e have "st' = st\<lparr>xsim := s4, io_inputs := ins', io_outputs := outs',
      output_count := n', signals_to_write := stage_inputs sname ins' (signals_to_write st)\<rparr>"
    by simp
  with h0 h1 h2 h3 h4 h5 show ?thesis by blast
qed

lemma read_inputs_keys:
  "map fst (map (\<lambda>(inp, q). (inp, f inp q)) ins) = map fst ins"
  by (induction ins) auto

text \<open>
  Claim C7. A cycle that completes went through these steps, whatever the hooks are:
  the pre-clock hook, then the falling edge (clock to 0, then time), then the read
  phase on the handle \<open>s1\<close> the falling edge left, in which nothing is written; each
  input queue loses its head exactly when \<^verbatim>\<open>TREADY\<close> and \<^verbatim>\<open>TVALID\<close> of its channel both
  read 1 on \<open>s1\<close>. The mapping staged afterwards holds, for every input channel (the
  keys of a dictionary are distinct), \<^verbatim>\<open>TVALID\<close> = 1 exactly when the queue after the
  read phase is non-empty, and \<^verbatim>\<open>TDATA\<close> = its head, or 0 when it is empty. The
  rising edge writes the clock to 1 and advances time, and only then writes the staged
  entries, in the order of the mapping; the post-clock hook runs last.
\<close>

theorem cycle_phases:
  assumes "cycle D hook_preclk hook_postclk sname st = (Inr u, st')"
  shows "\<exists>s0 s1 s3 c c' zeros ones writes.
           run_hook hook_preclk (xsim st) = (Inr (), s0) \<and>
           toggle_neg_edge D ''ap_clk'' s0 = (Inr (), s1) \<and>
           trace s1 = trace s0 @ [SetPort c zeros, Run 5000] \<and> py_int2 zeros = Inr 0 \<and>
           io_inputs st' =
             map (\<lambda>(inp, q).
                    (inp, if read_signal s1 (inp @ sname @ ''TREADY'') = Inr 1 \<and>
                             read_signal s1 (inp @ sname @ ''TVALID'') = Inr 1
                          then drop 1 q else q)) (io_inputs st) \<and>
           (distinct (map fst (io_inputs st)) \<longrightarrow>
              (\<forall>(inp, q) \<in> set (io_inputs st').
                 map_of (signals_to_write st') (inp @ sname @ ''TVALID'')
                   = Some (if q = [] then 0 else 1) \<and>
                 map_of (signals_to_write st') (inp @ sname @ ''TDATA'')
                   = Some (case q of [] \<Rightarrow> 0 | x # _ \<Rightarrow> x))) \<and>
           trace s3 = trace s1 @ [SetPort c' ones, Run 5000] @ writes \<and>
           py_int2 ones = Inr 1 \<and>
           list_all2 (\<lambda>e kv. \<exists>n w. e = SetPort n (encode w (snd kv)) \<and>
                                find_signal s3 (fst kv) = Inr n)
             writes (signals_to_write st') \<and>
           run_hook hook_postclk s3 = (Inr (), xsim st')"
proof -
  from assms have "cycle D hook_preclk hook_postclk sname st = (Inr (), st')" by simp
  from cycle_success [OF this] obtain s0 s1 s3 s4 ins' outs' n' where
    h0: "run_hook hook_preclk (xsim st) = (Inr (), s0)" and
    h1: "toggle_neg_edge D ''ap_clk'' s0 = (Inr (), s1)" and
    h2: "read_inputs s1 sname (io_inputs st) = (Inr (), ins')" and
    h3: "read_outputs s1 sname (io_outputs st) (output_count st) = (Inr (), outs', n')" and
    h4: "toggle_pos_edge D ''ap_clk'' (stage_inputs sname ins' (signals_to_write st)) s1
           = (Inr (), s3)" and
    h5: "run_hook hook_postclk s3 = (Inr (), s4)" and
    st': "st' = st\<lparr>xsim := s4, io_inputs := ins', io_outputs := outs', output_count := n',
                    signals_to_write := stage_inputs sname ins' (signals_to_write st)\<rparr>"
    by (elim exE conjE) (rule that; assumption)
  from neg_edge_success [OF h1] obtain c zeros where
    n1: "trace s1 = trace s0 @ [SetPort c zeros, Run 5000]" and n2: "py_int2 zeros = Inr 0"
    by (elim exE conjE) (rule that; assumption)
  from pos_edge_success [OF h4] obtain c0 c' ones writes where
    "find_signal s1 ''ap_clk'' = Inr c0" and
    p1: "py_int2 ones = Inr 1" and
    p2: "trace s3 = trace s1 @ [SetPort c' ones, Run 5000] @ writes" and
    p3: "list_all2 (\<lambda>e kv. \<exists>n w. e = SetPort n (encode w (snd kv)) \<and>
                             find_signal s3 (fst kv) = Inr n)
          writes (stage_inputs sname ins' (signals_to_write st))"
    by (elim exE conjE) (rule that; assumption)
  note i = read_inputs_ok [OF h2]
  have keys: "map fst ins' = map fst (io_inputs st)"
    unfolding i by (rule read_inputs_keys)
  have staged: "\<forall>(inp, q) \<in> set ins'.
          map_of (stage_inputs sname ins' (signals_to_write st)) (inp @ sname @ ''TVALID'')
            = Some (if q = [] then 0 else 1) \<and>
          map_of (stage_inputs sname ins' (signals_to_write st)) (inp @ sname @ ''TDATA'')
            = Some (case q of [] \<Rightarrow> 0 | x # _ \<Rightarrow> x)"
    if d: "distinct (map fst (io_inputs st))"
  proof (clarify)
    fix inp q
    assume m: "(inp, q) \<in> set ins'"
    from d keys have "distinct (map fst ins')" by simp
    from stage_inputs_staged [OF this m]
    show "map_of (stage_inputs sname ins' (signals_to_write st)) (inp @ sname @ ''TVALID'')
            = Some (if q = [] then 0 else 1) \<and>
          map_of (stage_inputs sname ins' (signals_to_write st)) (inp @ sname @ ''TDATA'')
            = Some (case q of [] \<Rightarrow> 0 | x # _ \<Rightarrow> x)" .
  qed
  have x: "xsim st' = s4" and ii: "io_inputs st' = ins'"
   and sw: "signals_to_write st' = stage_inputs sname ins' (signals_to_write st)"
    unfolding st' by simp_all
  show ?thesis
  proof (intro exI conjI)
    show "run_hook hook_preclk (xsim st) = (Inr (), s0)" by (rule h0)
    show "toggle_neg_edge D ''ap_clk'' s0 = (Inr (), s1)" by (rule h1)
    show "trace s1 = trace s0 @ [SetPort c zeros, Run 5000]" by (rule n1)
    show "py_int2 zeros = Inr 0" by (rule n2)
    show "io_inputs st' =
             map (\<lambda>(inp, q).
                    (inp, if read_signal s1 (inp @ sname @ ''TREADY'') = Inr 1 \<and>
                             read_signal s1 (inp @ sname @ ''TVALID'') = Inr 1
                          then drop 1 q else q)) (io_inputs st)"
      unfolding ii by (rule i)
    show "distinct (map fst (io_inputs st)) \<longrightarrow>
              (\<forall>(inp, q) \<in> set (io_inputs st').
                 map_of (signals_to_write st') (inp @ sname @ ''TVALID'')
                   = Some (if q = [] then 0 else 1) \<and>
                 map_of (signals_to_write st') (inp @ sname @ ''TDATA'')
                   = Some (case q of [] \<Rightarrow> 0 | x # _ \<Rightarrow> x))"
      unfolding ii sw using staged by (intro impI)
    show "trace s3 = trace s1 @ [SetPort c' ones, Run 5000] @ writes" by (rule p2)
    show "py_int2 ones = Inr 1" by (rule p1)
    show "list_all2 (\<lambda>e kv. \<exists>n w. e = SetPort n (encode w (snd kv)) \<and>
                                find_signal s3 (fst kv) = Inr n)
             writes (signals_to_write st')"
      unfolding sw by (rule p3)
    show "run_hook hook_postclk s3 = (Inr (), xsim st')"
      unfolding x by (rule h5)
  qed
qed

lemma sink_cycle_accepting:
  "cycle idle_dut None None ''_V_V_''
     (init_state (sim_sink\<lparr>ports := sink_ports ''0'' ''1'' ''101''\<rparr>) [(''in0'', [5, 7])] [])
   = (Inr (),
      (init_state (sim_sink\<lparr>ports := sink_ports ''0'' ''1'' ''101''\<rparr>) [(''in0'', [5, 7])] [])
        \<lparr>xsim := \<lparr>ports = sink_ports ''1'' ''1'' ''111'', design = (),
                   trace = [SetPort ''ap_clk'' ''0'', Run 5000,
                            SetPort ''ap_clk'' ''1'', Run 5000,
                            SetPort ''in0_V_V_TVALID'' ''1'',
                            SetPort ''in0_V_V_TDATA'' ''111'']\<rparr>,
          io_inputs := [(''in0'', [7])],
          signals_to_write := [(''in0_V_V_TVALID'', 1), (''in0_V_V_TDATA'', 7)]\<rparr>)"
  by (simp add: engine_eval signal_eval idle_dut_def init_state_def sim_sink_def
        sink_ports_def)

text \<open>
  The sink handle with \<^verbatim>\<open>TVALID\<close> high and the queue 5, 7: the cycle pops 5, stages
  \<^verbatim>\<open>TVALID\<close> = 1 and \<^verbatim>\<open>TDATA\<close> = 7, and writes both after the second time step.
\<close>

theorem cycle_phases_witness:
  "\<exists>st'. cycle idle_dut None None ''_V_V_''
           (init_state (sim_sink\<lparr>ports := sink_ports ''0'' ''1'' ''101''\<rparr>)
              [(''in0'', [5, 7])] [])
         = (Inr (), st') \<and>
         io_inputs st' = [(''in0'', [7])] \<and>
         map_of (signals_to_write st') ''in0_V_V_TVALID'' = Some 1 \<and>
         map_of (signals_to_write st') ''in0_V_V_TDATA'' = Some 7 \<and>
         trace (xsim st') =
           [SetPort ''ap_clk'' ''0'', Run 5000, SetPort ''ap_clk'' ''1'', Run 5000,
            SetPort ''in0_V_V_TVALID'' ''1'', SetPort ''in0_V_V_TDATA'' ''111'']"
proof -
  let ?st = "init_state (sim_sink\<lparr>ports := sink_ports ''0'' ''1'' ''101''\<rparr>)
               [(''in0'', [5, 7])] []"
  let ?st' = "?st\<lparr>xsim := \<lparr>ports = sink_ports ''1'' ''1'' ''111'', design = (),
                   trace = [SetPort ''ap_clk'' ''0'', Run 5000,
                            SetPort ''ap_clk'' ''1'', Run 5000,
                            SetPort ''in0_V_V_TVALID'' ''1'',
                            SetPort ''in0_V_V_TDATA'' ''111'']\<rparr>,
          io_inputs := [(''in0'', [7])],
          signals_to_write := [(''in0_V_V_TVALID'', 1), (''in0_V_V_TDATA'', 7)]\<rparr>"
  have c: "cycle idle_dut None None ''_V_V_'' ?st = (Inr (), ?st')"
    by (rule sink_cycle_accepting)
  from cycle_phases [OF c]
  have "distinct (map fst (io_inputs ?st)) \<longrightarrow>
          (\<forall>(inp, q) \<in> set (io_inputs ?st').
             map_of (signals_to_write ?st') (inp @ ''_V_V_'' @ ''TVALID'')
               = Some (if q = [] then 0 else 1) \<and>
             map_of (signals_to_write ?st') (inp @ ''_V_V_'' @ ''TDATA'')
               = Some (case q of [] \<Rightarrow> 0 | x # _ \<Rightarrow> x))"
    by (elim exE conjE)
  then have "map_of (signals_to_write ?st') ''in0_V_V_TVALID'' = Some 1 \<and>
             map_of (signals_to_write ?st') ''in0_V_V_TDATA'' = Some 7"
    by (simp add: init_state_def)
  with c show ?thesis by simp
qed

section \<open>Runs as sequences of passes\<close>

lemma loop_continues:
  assumes "continues D hook_preclk hook_postclk sname target t st"
  shows "rtlsim_loop D hook_preclk hook_postclk sname target t st =
         rtlsim_loop D hook_preclk hook_postclk sname target t
           (next_pass D hook_preclk hook_postclk sname st)"
proof -
  obtain r st1 where c: "cycle D hook_preclk hook_postclk sname st = (r, st1)"
    by (cases "cycle D hook_preclk hook_postclk sname st")
  from assms c obtain u where r: "r = Inr u"
    by (cases r) (auto simp: continues_def)
  from assms c r have "no_change_count (count_cycle st1) \<noteq> t"
    and "output_count (count_cycle st1) \<noteq> target"
    by (auto simp: continues_def)
  with c r show ?thesis
    by (subst rtlsim_loop.simps) (simp add: Let_def next_pass_def)
qed

lemma loop_ends:
  assumes "\<not> continues D hook_preclk hook_postclk sname target t st"
  shows "rtlsim_loop D hook_preclk hook_postclk sname target t st =
           (case cycle D hook_preclk hook_postclk sname st of
              (Inl e, st1) \<Rightarrow> Some (Inl e, st1)
            | (Inr u, st1) \<Rightarrow>
                Some (if no_change_count (count_cycle st1) = t
                      then Inl SimulationStalledError
                      else Inr (total_cycle_count (count_cycle st1)),
                      count_cycle st1))"
proof -
  obtain r st1 where c: "cycle D hook_preclk hook_postclk sname st = (r, st1)"
    by (cases "cycle D hook_preclk hook_postclk sname st")
  show ?thesis
  proof (cases r)
    case (Inl e)
    with c show ?thesis by (subst rtlsim_loop.simps) simp
  next
    case (Inr u)
    with assms c
    have "no_change_count (count_cycle st1) = t \<or> output_count (count_cycle st1) = target"
      by (auto simp: continues_def)
    with c Inr show ?thesis
      by (subst rtlsim_loop.simps) (auto simp: Let_def)
  qed
qed

lemma loop_after_passes:
  assumes "continue_cycles D hook_preclk hook_postclk sname target t n st = Some st_n"
  shows "rtlsim_loop D hook_preclk hook_postclk sname target t st =
         rtlsim_loop D hook_preclk hook_postclk sname target t st_n"
  using assms
proof (induction n arbitrary: st)
  case 0
  then show ?case by simp
next
  case (Suc n)
  from Suc.prems have c: "continues D hook_preclk hook_postclk sname target t st"
    and r: "continue_cycles D hook_preclk hook_postclk sname target t n
              (next_pass D hook_preclk hook_postclk sname st) = Some st_n"
    by (auto split: if_splits)
  from loop_continues [OF c] Suc.IH [OF r] show ?case by simp
qed

lemma next_pass_total:
  "total_cycle_count (next_pass D hook_preclk hook_postclk sname st) = total_cycle_count st + 1"
proof -
  obtain r st1 where c: "cycle D hook_preclk hook_postclk sname st = (r, st1)"
    by (cases "cycle D hook_preclk hook_postclk sname st")
  from cycle_body_frame [OF c] c show ?thesis
    by (simp add: next_pass_def count_cycle_total body_frame_def)
qed

lemma passes_total:
  assumes "continue_cycles D hook_preclk hook_postclk sname target t n st = Some st_n"
  shows "total_cycle_count st_n = total_cycle_count st + int n"
  using assms
proof (induction n arbitrary: st)
  case 0
  then show ?case by simp
next
  case (Suc n)
  from Suc.prems have
    r: "continue_cycles D hook_preclk hook_postclk sname target t n
          (next_pass D hook_preclk hook_postclk sname st) = Some st_n"
    by (auto split: if_splits)
  from Suc.IH [OF r] show ?case by (simp add: next_pass_total)
qed

lemma loop_passes_exist:
  assumes "rtlsim_loop D0 pre0 post0 sname0 target0 t0 st0 = Some res0"
  shows "\<exists>n st_n. continue_cycles D0 pre0 post0 sname0 target0 t0 n st0 = Some st_n \<and>
           \<not> continues D0 pre0 post0 sname0 target0 t0 st_n"
proof (rule rtlsim_loop.raw_induct
         [where P = "\<lambda>D hook_preclk hook_postclk sname target t st res.
                       \<exists>n st_n. continue_cycles D hook_preclk hook_postclk sname target t n st
                                  = Some st_n \<and>
                                \<not> continues D hook_preclk hook_postclk sname target t st_n",
          OF _ assms], goal_cases)
  case (1 loop D hook_preclk hook_postclk sname target t st res)
  show ?case
  proof (cases "continues D hook_preclk hook_postclk sname target t st")
    case False
    have "continue_cycles D hook_preclk hook_postclk sname target t 0 st = Some st" by simp
    with False show ?thesis by blast
  next
    case True
    obtain r st1 where c: "cycle D hook_preclk hook_postclk sname st = (r, st1)"
      by (cases "cycle D hook_preclk hook_postclk sname st")
    from True c obtain u where r: "r = Inr u"
      by (cases r) (auto simp: continues_def)
    from True c r have "no_change_count (count_cycle st1) \<noteq> t"
      and "output_count (count_cycle st1) \<noteq> target"
      by (auto simp: continues_def)
    with 1(2) c r
    have "loop D hook_preclk hook_postclk sname target t (count_cycle st1) = Some res"
      by (simp add: Let_def)
    from 1(1) [OF this] obtain n st_n where
      n: "continue_cycles D hook_preclk hook_postclk sname target t n (count_cycle st1)
            = Some st_n"
      and e: "\<not> continues D hook_preclk hook_postclk sname target t st_n"
      by blast
    from c have "next_pass D hook_preclk hook_postclk sname st = count_cycle st1"
      by (simp add: next_pass_def)
    with n True
    have "continue_cycles D hook_preclk hook_postclk sname target t (Suc n) st = Some st_n"
      by simp
    with e show ?thesis by blast
  qed
qed

section \<open>Time steps on the handle\<close>

lemma time_steps_append: "time_steps (a @ b) = time_steps a + time_steps b"
  by (simp add: time_steps_def)

lemma write_signal_time_steps:
  assumes "write_signal q v s = (r, s')"
  shows "time_steps (trace s') = time_steps (trace s)"
  using assms
  by (auto simp: write_signal_def set_port_value_def Let_def time_steps_def
           split: sum.splits if_splits)

lemma writes_time_steps:
  assumes "\<And>m. m \<in> set ms \<Longrightarrow> \<exists>q v. m = write_signal q v"
      and "sequence ms s = (r, s')"
  shows "time_steps (trace s') = time_steps (trace s)"
proof (rule sequence_rel
         [where R = "\<lambda>a b. time_steps (trace b) = time_steps (trace a)", OF _ _ _ assms(2)])
  show "time_steps (trace s) = time_steps (trace s)" for s :: "'a xsi" by simp
  show "time_steps (trace b) = time_steps (trace a) \<Longrightarrow>
        time_steps (trace c) = time_steps (trace b) \<Longrightarrow>
        time_steps (trace c) = time_steps (trace a)" for a b c :: "'a xsi"
    by simp
  fix m and s s' :: "'a xsi" and r
  assume "m \<in> set ms" and m: "m s = (r, s')"
  with assms(1) obtain q v where "m = write_signal q v" by blast
  with m show "time_steps (trace s') = time_steps (trace s)"
    using write_signal_time_steps by blast
qed

lemma setup_time_steps:
  assumes "setup_outputs sname st = (r, st0)"
  shows "time_steps (trace (xsim st0)) = time_steps (trace (xsim st))"
proof -
  from assms obtain s' where
    w: "sequence (map (\<lambda>outp. write_signal (outp @ sname @ ''TREADY'') 1)
                      (map fst (io_outputs st))) (xsim st) = (r, s')"
    and s: "st0 = st\<lparr>xsim := s'\<rparr>"
    unfolding setup_outputs_def using on_sim_result by blast
  have "time_steps (trace s') = time_steps (trace (xsim st))"
    by (rule writes_time_steps [OF _ w]) auto
  with s show ?thesis by simp
qed

lemma staged_writes_no_time:
  assumes "list_all2 (\<lambda>e kv. \<exists>n w. e = SetPort n (encode w (snd kv)) \<and> Q n kv) ws kvs"
  shows "time_steps ws = 0"
  using assms by (induction rule: list_all2_induct) (auto simp: time_steps_def)

lemma cycle_time_steps:
  assumes "cycle D None None sname st = (Inr u, st')"
  shows "time_steps (trace (xsim st')) = time_steps (trace (xsim st)) + 2"
proof -
  from assms have "cycle D None None sname st = (Inr (), st')" by simp
  from cycle_success [OF this] obtain s0 s1 s3 s4 ins' outs' n' where
    h0: "run_hook None (xsim st) = (Inr (), s0)" and
    h1: "toggle_neg_edge D ''ap_clk'' s0 = (Inr (), s1)" and
    h2: "read_inputs s1 sname (io_inputs st) = (Inr (), ins')" and
    h3: "read_outputs s1 sname (io_outputs st) (output_count st) = (Inr (), outs', n')" and
    h4: "toggle_pos_edge D ''ap_clk'' (stage_inputs sname ins' (signals_to_write st)) s1
           = (Inr (), s3)" and
    h5: "run_hook None s3 = (Inr (), s4)" and
    st': "st' = st\<lparr>xsim := s4, io_inputs := ins', io_outputs := outs', output_count := n',
                    signals_to_write := stage_inputs sname ins' (signals_to_write st)\<rparr>"
    by (elim exE conjE) (rule that; assumption)
  from h0 have s0: "s0 = xsim st" by (simp add: run_hook_def succeed_def)
  from h5 have s4: "s4 = s3" by (simp add: run_hook_def succeed_def)
  from neg_edge_success [OF h1] obtain c zeros where
    n1: "trace s1 = trace s0 @ [SetPort c zeros, Run 5000]"
    by (elim exE conjE) (rule that; assumption)
  from pos_edge_success [OF h4] obtain c' ones ws where
    p2: "trace s3 = trace s1 @ [SetPort c' ones, Run 5000] @ ws" and
    p3: "list_all2 (\<lambda>e kv. \<exists>n w. e = SetPort n (encode w (snd kv)) \<and>
                             find_signal s3 (fst kv) = Inr n)
          ws (stage_inputs sname ins' (signals_to_write st))"
    by (elim exE conjE) (rule that; assumption)
  from staged_writes_no_time [OF p3] have "time_steps ws = 0" .
  with n1 p2 have "time_steps (trace s3) = time_steps (trace s0) + 2"
    by (simp add: time_steps_append) (simp add: time_steps_def)
  with s0 s4 st' show ?thesis by simp
qed

lemma passes_time_steps:
  assumes "continue_cycles D None None sname target t n st = Some st_n"
  shows "time_steps (trace (xsim st_n)) = time_steps (trace (xsim st)) + 2 * n"
  using assms
proof (induction n arbitrary: st)
  case 0
  then show ?case by simp
next
  case (Suc n)
  from Suc.prems have c: "continues D None None sname target t st"
    and r: "continue_cycles D None None sname target t n (next_pass D None None sname st)
              = Some st_n"
    by (auto split: if_splits)
  obtain q st1 where y: "cycle D None None sname st = (q, st1)"
    by (cases "cycle D None None sname st")
  from c y obtain u where "q = Inr u" by (cases q) (auto simp: continues_def)
  with y have "time_steps (trace (xsim st1)) = time_steps (trace (xsim st)) + 2"
    using cycle_time_steps by blast
  with y have "time_steps (trace (xsim (next_pass D None None sname st)))
                 = time_steps (trace (xsim st)) + 2"
    by (simp add: next_pass_def count_cycle_def Let_def)
  with Suc.IH [OF r] show ?case by simp
qed

section \<open>Cycle counter and success\<close>

lemma success_after_passes:
  assumes "continue_cycles D hook_preclk hook_postclk sname target t n st = Some st_n"
      and "cycle D hook_preclk hook_postclk sname st_n = (Inr u, st1)"
      and "output_count st1 = target"
      and "no_change_count (count_cycle st1) \<noteq> t"
  shows "rtlsim_loop D hook_preclk hook_postclk sname target t st
           = Some (Inr (total_cycle_count st + int n + 1), count_cycle st1)"
  using loop_after_passes [OF assms(1)] passes_total [OF assms(1)]
        success_when_target_reached [OF assms(2,3,4)]
  by simp

lemma return_passes:
  assumes "rtlsim_loop D hook_preclk hook_postclk sname target t st = Some (Inr k, st')"
  shows "\<exists>n st_n u st1.
           continue_cycles D hook_preclk hook_postclk sname target t n st = Some st_n \<and>
           cycle D hook_preclk hook_postclk sname st_n = (Inr u, st1) \<and>
           st' = count_cycle st1 \<and> k = total_cycle_count st + int n + 1 \<and>
           output_count st1 = target \<and> no_change_count st' \<noteq> t"
proof -
  from loop_passes_exist [OF assms] obtain n st_n where
    p: "continue_cycles D hook_preclk hook_postclk sname target t n st = Some st_n" and
    e: "\<not> continues D hook_preclk hook_postclk sname target t st_n"
    by blast
  from loop_after_passes [OF p] assms
  have l: "rtlsim_loop D hook_preclk hook_postclk sname target t st_n = Some (Inr k, st')"
    by simp
  obtain r st1 where c: "cycle D hook_preclk hook_postclk sname st_n = (r, st1)"
    by (cases "cycle D hook_preclk hook_postclk sname st_n")
  from l loop_ends [OF e] c obtain u where r: "r = Inr u"
    by (cases r) auto
  from l loop_ends [OF e] c r
  have s: "st' = count_cycle st1" and ns: "no_change_count (count_cycle st1) \<noteq> t"
    and k: "k = total_cycle_count (count_cycle st1)"
    by (auto split: if_splits)
  from e c r ns have o: "output_count st1 = target"
    by (auto simp: continues_def count_cycle_output)
  from cycle_body_frame [OF c] passes_total [OF p] k
  have "k = total_cycle_count st + int n + 1"
    by (simp add: count_cycle_total body_frame_def)
  with p c r s ns o show ?thesis by blast
qed

text \<open>
  Claim C6 as stated lets the success check decide a cycle in which the target is
  reached. The code only sets a flag there and still runs the stall check: with target
  0 and threshold 1 on the quiet design, the first cycle has output count 0, equal to
  the target, and the run raises \<open>SimulationStalledError\<close> instead of returning 1.
\<close>

theorem success_overridden_counterexample:
  "map_option fst
     (rtlsim_multi_io idle_dut sim_quiet [] [(''out0'', [])] 0 ''_V_V_'' 1 None None)
   = Some (Inl SimulationStalledError) \<and>
   map_option (\<lambda>r. output_count (snd r))
     (rtlsim_multi_io idle_dut sim_quiet [] [(''out0'', [])] 0 ''_V_V_'' 1 None None)
   = Some 0"
  by (simp add: rtlsim_multi_io_def quiet_setup)
     (subst rtlsim_loop.simps,
      simp add: quiet_cycle init_state_def sim_quiet_def count_cycle_def Let_def)+

text \<open>
  Claim C6, amended: success needs the no-progress counter to differ from the
  threshold in that cycle. A run is a number \<open>n\<close> of passes after which the loop goes
  on (\<open>continue_cycles\<close>), followed by one last pass.
  \<^item> The loop body leaves the cycle counter alone and the update after it adds exactly
    one, in every pass, however the body ends.
  \<^item> If \<open>n\<close> passes go on and the next one completes with the output count equal to
    the target and the no-progress counter different from the threshold, the loop
    returns the counter it started with plus \<open>n + 1\<close>, in the state of that pass.
  \<^item> Conversely, whenever the loop returns a number \<open>k\<close>, there are such \<open>n\<close> passes and
    such a last pass, and \<open>k\<close> is the starting counter plus \<open>n + 1\<close>.
  \<^item> Both hold of the whole engine, which starts the counter at 0: it returns
    \<open>n + 1\<close>, the number of passes made.
  \<^item> Seen on the handle, with no hooks: a run of the engine that returns \<open>k\<close> has
    advanced simulation time exactly \<open>2 * k\<close> times, one falling and one rising
    clock edge per counted cycle.
\<close>

theorem cycle_counter_and_success:
  "(\<forall>(st :: 'd rtlsim) r st'.
      cycle D hook_preclk hook_postclk sname st = (r, st') \<longrightarrow>
      total_cycle_count st' = total_cycle_count st \<and>
      total_cycle_count (count_cycle st') = total_cycle_count st + 1) \<and>
   (\<forall>(st :: 'd rtlsim) n st_n u st1.
      continue_cycles D hook_preclk hook_postclk sname target t n st = Some st_n \<and>
      cycle D hook_preclk hook_postclk sname st_n = (Inr u, st1) \<and>
      output_count st1 = target \<and> no_change_count (count_cycle st1) \<noteq> t \<longrightarrow>
      rtlsim_loop D hook_preclk hook_postclk sname target t st
        = Some (Inr (total_cycle_count st + int n + 1), count_cycle st1)) \<and>
   (\<forall>(st :: 'd rtlsim) k st'.
      rtlsim_loop D hook_preclk hook_postclk sname target t st = Some (Inr k, st') \<longrightarrow>
      (\<exists>n st_n u st1.
         continue_cycles D hook_preclk hook_postclk sname target t n st = Some st_n \<and>
         cycle D hook_preclk hook_postclk sname st_n = (Inr u, st1) \<and>
         st' = count_cycle st1 \<and> k = total_cycle_count st + int n + 1 \<and>
         k = total_cycle_count st' \<and>
         output_count st1 = target \<and> no_change_count st' \<noteq> t)) \<and>
   (\<forall>sim ins outs u0 (st0 :: 'd rtlsim) n st_n u st1.
      setup_outputs sname (init_state sim ins outs) = (Inr u0, st0) \<and>
      continue_cycles D hook_preclk hook_postclk sname target t n st0 = Some st_n \<and>
      cycle D hook_preclk hook_postclk sname st_n = (Inr u, st1) \<and>
      output_count st1 = target \<and> no_change_count (count_cycle st1) \<noteq> t \<longrightarrow>
      rtlsim_multi_io D sim ins outs target sname t hook_preclk hook_postclk
        = Some (Inr (int n + 1), count_cycle st1)) \<and>
   (\<forall>sim ins outs k (st' :: 'd rtlsim).
      rtlsim_multi_io D sim ins outs target sname t hook_preclk hook_postclk
        = Some (Inr k, st') \<longrightarrow>
      (\<exists>u0 st0 n st_n u st1.
         setup_outputs sname (init_state sim ins outs) = (Inr u0, st0) \<and>
         continue_cycles D hook_preclk hook_postclk sname target t n st0 = Some st_n \<and>
         cycle D hook_preclk hook_postclk sname st_n = (Inr u, st1) \<and>
         st' = count_cycle st1 \<and> k = int n + 1 \<and> k = total_cycle_count st' \<and>
         output_count st1 = target \<and> no_change_count st' \<noteq> t)) \<and>
   (\<forall>sim ins outs k (st' :: 'd rtlsim).
      rtlsim_multi_io D sim ins outs target sname t None None = Some (Inr k, st') \<longrightarrow>
      int (time_steps (trace (xsim st'))) = int (time_steps (trace sim)) + 2 * k)"
proof (intro conjI allI impI)
  fix st :: "'d rtlsim" and r st'
  assume c: "cycle D hook_preclk hook_postclk sname st = (r, st')"
  from cycle_body_frame [OF c]
  show "total_cycle_count st' = total_cycle_count st"
   and "total_cycle_count (count_cycle st') = total_cycle_count st + 1"
    by (simp_all add: body_frame_def count_cycle_total)
next
  fix st :: "'d rtlsim" and n st_n u st1
  assume "continue_cycles D hook_preclk hook_postclk sname target t n st = Some st_n \<and>
          cycle D hook_preclk hook_postclk sname st_n = (Inr u, st1) \<and>
          output_count st1 = target \<and> no_change_count (count_cycle st1) \<noteq> t"
  then show "rtlsim_loop D hook_preclk hook_postclk sname target t st
               = Some (Inr (total_cycle_count st + int n + 1), count_cycle st1)"
    by (intro success_after_passes [where u = u and st_n = st_n]) auto
next
  fix st :: "'d rtlsim" and k st'
  assume l: "rtlsim_loop D hook_preclk hook_postclk sname target t st = Some (Inr k, st')"
  from return_passes [OF l] obtain n st_n u st1 where
    p: "continue_cycles D hook_preclk hook_postclk sname target t n st = Some st_n" and
    c: "cycle D hook_preclk hook_postclk sname st_n = (Inr u, st1)" and
    s: "st' = count_cycle st1" and k: "k = total_cycle_count st + int n + 1" and
    o: "output_count st1 = target" and ns: "no_change_count st' \<noteq> t"
    by (elim exE conjE) (rule that; assumption)
  from cycle_body_frame [OF c] passes_total [OF p] s k
  have "k = total_cycle_count st'"
    by (simp add: count_cycle_total body_frame_def)
  with p c s k o ns
  show "\<exists>n st_n u st1.
          continue_cycles D hook_preclk hook_postclk sname target t n st = Some st_n \<and>
          cycle D hook_preclk hook_postclk sname st_n = (Inr u, st1) \<and>
          st' = count_cycle st1 \<and> k = total_cycle_count st + int n + 1 \<and>
          k = total_cycle_count st' \<and>
          output_count st1 = target \<and> no_change_count st' \<noteq> t"
    by blast
next
  fix sim :: "'d xsi" and ins outs u0 and st0 :: "'d rtlsim" and n st_n u st1
  assume a: "setup_outputs sname (init_state sim ins outs) = (Inr u0, st0) \<and>
          continue_cycles D hook_preclk hook_postclk sname target t n st0 = Some st_n \<and>
          cycle D hook_preclk hook_postclk sname st_n = (Inr u, st1) \<and>
          output_count st1 = target \<and> no_change_count (count_cycle st1) \<noteq> t"
  then have s: "setup_outputs sname (init_state sim ins outs) = (Inr u0, st0)" by simp
  from a have "rtlsim_loop D hook_preclk hook_postclk sname target t st0
                 = Some (Inr (total_cycle_count st0 + int n + 1), count_cycle st1)"
    by (intro success_after_passes [where u = u and st_n = st_n]) auto
  with s setup_outputs_counters [OF s]
  show "rtlsim_multi_io D sim ins outs target sname t hook_preclk hook_postclk
          = Some (Inr (int n + 1), count_cycle st1)"
    by (simp add: rtlsim_multi_io_def)
next
  fix sim :: "'d xsi" and ins outs k and st' :: "'d rtlsim"
  assume m: "rtlsim_multi_io D sim ins outs target sname t hook_preclk hook_postclk
               = Some (Inr k, st')"
  obtain r st0 where s: "setup_outputs sname (init_state sim ins outs) = (r, st0)"
    by (cases "setup_outputs sname (init_state sim ins outs)")
  from m s obtain u0 where r: "r = Inr u0"
    by (cases r) (auto simp: rtlsim_multi_io_def)
  from m s r
  have l: "rtlsim_loop D hook_preclk hook_postclk sname target t st0 = Some (Inr k, st')"
    by (simp add: rtlsim_multi_io_def)
  from return_passes [OF l] obtain n st_n u st1 where
    p: "continue_cycles D hook_preclk hook_postclk sname target t n st0 = Some st_n" and
    c: "cycle D hook_preclk hook_postclk sname st_n = (Inr u, st1)" and
    s': "st' = count_cycle st1" and k: "k = total_cycle_count st0 + int n + 1" and
    o: "output_count st1 = target" and ns: "no_change_count st' \<noteq> t"
    by (elim exE conjE) (rule that; assumption)
  from setup_outputs_counters [OF s] k have k': "k = int n + 1" by simp
  from cycle_body_frame [OF c] passes_total [OF p] s' k
  have "k = total_cycle_count st'"
    by (simp add: count_cycle_total body_frame_def)
  with s r p c s' k' o ns
  show "\<exists>u0 st0 n st_n u st1.
          setup_outputs sname (init_state sim ins outs) = (Inr u0, st0) \<and>
          continue_cycles D hook_preclk hook_postclk sname target t n st0 = Some st_n \<and>
          cycle D hook_preclk hook_postclk sname st_n = (Inr u, st1) \<and>
          st' = count_cycle st1 \<and> k = int n + 1 \<and> k = total_cycle_count st' \<and>
          output_count st1 = target \<and> no_change_count st' \<noteq> t"
    by blast
next
  fix sim :: "'d xsi" and ins outs k and st' :: "'d rtlsim"
  assume m: "rtlsim_multi_io D sim ins outs target sname t None None = Some (Inr k, st')"
  obtain r st0 where s: "setup_outputs sname (init_state sim ins outs) = (r, st0)"
    by (cases "setup_outputs sname (init_state sim ins outs)")
  from m s obtain u0 where r: "r = Inr u0"
    by (cases r) (auto simp: rtlsim_multi_io_def)
  from m s r
  have l: "rtlsim_loop D None None sname target t st0 = Some (Inr k, st')"
    by (simp add: rtlsim_multi_io_def)
  from return_passes [OF l] obtain n st_n u st1 where
    p: "continue_cycles D None None sname target t n st0 = Some st_n" and
    c: "cycle D None None sname st_n = (Inr u, st1)" and
    s': "st' = count_cycle st1" and k: "k = total_cycle_count st0 + int n + 1"
    by (elim exE conjE) (rule that; assumption)
  from setup_time_steps [OF s]
  have "time_steps (trace (xsim st0)) = time_steps (trace sim)"
    by (simp add: init_state_def)
  with passes_time_steps [OF p] cycle_time_steps [OF c] s'
  have "time_steps (trace (xsim st')) = time_steps (trace sim) + 2 * n + 2"
    by (simp add: count_cycle_def Let_def)
  with setup_outputs_counters [OF s] k
  show "int (time_steps (trace (xsim st'))) = int (time_steps (trace sim)) + 2 * k"
    by simp
qed

lemma late_first_cycle:
  assumes "ports (xsim st) = pulse_ports k ''1'' v" and "length k = 1"
      and "design (xsim st) = 0"
      and "io_inputs st = []" and "io_outputs st = [(''out0'', buf)]"
      and "signals_to_write st = []"
  shows "cycle late_dut None None ''_V_V_'' st =
           (Inr (), st\<lparr>xsim := (xsim st)\<lparr>ports := pulse_ports ''1'' ''1'' ''0'',
                          design := 2,
                          trace := trace (xsim st) @
                            [SetPort ''ap_clk'' ''0'', Run 5000,
                             SetPort ''ap_clk'' ''1'', Run 5000]\<rparr>\<rparr>)"
  using assms
  by (simp add: engine_eval signal_eval late_dut_def pulse_ports_def numeral_2_eq_2)

lemma late_second_cycle:
  assumes "ports (xsim st) = pulse_ports k ''1'' v" and "length k = 1"
      and "design (xsim st) = 2"
      and "io_inputs st = []" and "io_outputs st = [(''out0'', buf)]"
      and "signals_to_write st = []"
  shows "cycle late_dut None None ''_V_V_'' st =
           (Inr (), st\<lparr>xsim := (xsim st)\<lparr>ports := pulse_ports ''1'' ''1'' ''0'',
                          design := 4,
                          trace := trace (xsim st) @
                            [SetPort ''ap_clk'' ''0'', Run 5000,
                             SetPort ''ap_clk'' ''1'', Run 5000]\<rparr>,
                        io_outputs := [(''out0'', buf @ [2])],
                        output_count := output_count st + 1\<rparr>)"
  using assms
  by (simp add: engine_eval signal_eval late_dut_def pulse_ports_def numeral_2_eq_2
        eval_nat_numeral)

text \<open>
  The theorem at a run of two passes: the design raises \<^verbatim>\<open>TVALID\<close> only in the
  second cycle, so the first pass goes on and the second reads the one word asked
  for. The engine returns 2, having advanced simulation time four times.
\<close>

theorem cycle_counter_and_success_witness:
  "\<exists>st'. rtlsim_multi_io late_dut sim_pulse [] [(''out0'', [])] 1 ''_V_V_'' 3 None None
            = Some (Inr 2, st') \<and>
         io_outputs st' = [(''out0'', [2])] \<and> total_cycle_count st' = 2 \<and>
         time_steps (trace (xsim st')) = 4"
proof -
  let ?p0 = "(init_state sim_pulse [] [(''out0'', [])])
               \<lparr>xsim := sim_pulse\<lparr>ports := pulse_ports ''0'' ''1'' ''0'',
                                   trace := [SetPort ''out0_V_V_TREADY'' ''1'']\<rparr>\<rparr>"
  let ?p1 = "?p0\<lparr>xsim := (xsim ?p0)\<lparr>ports := pulse_ports ''1'' ''1'' ''0'',
                          design := 2,
                          trace := trace (xsim ?p0) @
                            [SetPort ''ap_clk'' ''0'', Run 5000,
                             SetPort ''ap_clk'' ''1'', Run 5000]\<rparr>\<rparr>"
  let ?q = "count_cycle ?p1"
  let ?p2 = "?q\<lparr>xsim := (xsim ?q)\<lparr>ports := pulse_ports ''1'' ''1'' ''0'',
                          design := 4,
                          trace := trace (xsim ?q) @
                            [SetPort ''ap_clk'' ''0'', Run 5000,
                             SetPort ''ap_clk'' ''1'', Run 5000]\<rparr>,
                 io_outputs := [(''out0'', [] @ [2])],
                 output_count := output_count ?q + 1\<rparr>"
  have s: "setup_outputs ''_V_V_'' (init_state sim_pulse [] [(''out0'', [])]) = (Inr (), ?p0)"
    by (rule pulse_setup)
  have c1: "cycle late_dut None None ''_V_V_'' ?p0 = (Inr (), ?p1)"
    by (rule late_first_cycle [where k = "''0''" and v = "''0''"])
       (simp_all add: init_state_def sim_pulse_def)
  have c2: "cycle late_dut None None ''_V_V_'' ?q = (Inr (), ?p2)"
    by (rule late_second_cycle [where k = "''1''" and v = "''0''"])
       (simp_all add: init_state_def sim_pulse_def count_cycle_def Let_def)
  have p: "continue_cycles late_dut None None ''_V_V_'' 1 3 1 ?p0 = Some ?q"
    by (simp add: continues_def next_pass_def c1)
       (simp add: count_cycle_def Let_def init_state_def)
  have o: "output_count ?p2 = 1" and n: "no_change_count (count_cycle ?p2) \<noteq> 3"
    by (simp_all add: count_cycle_def Let_def init_state_def)
  note T = cycle_counter_and_success [where D = late_dut and hook_preclk = None
             and hook_postclk = None and sname = "''_V_V_''" and target = 1 and t = 3]
  from T [THEN conjunct2, THEN conjunct2, THEN conjunct2, THEN conjunct1, rule_format,
          of sim_pulse "[]" "[(''out0'', [])]" "()" ?p0 1 ?q "()" ?p2] s p c2 o n
  have r: "rtlsim_multi_io late_dut sim_pulse [] [(''out0'', [])] 1 ''_V_V_'' 3 None None
             = Some (Inr 2, count_cycle ?p2)"
    by simp
  from T [THEN conjunct2, THEN conjunct2, THEN conjunct2, THEN conjunct2, THEN conjunct2,
          rule_format, OF r]
  have "time_steps (trace (xsim (count_cycle ?p2))) = 4"
    by (simp add: sim_pulse_def time_steps_def)
  moreover have "io_outputs (count_cycle ?p2) = [(''out0'', [2])]"
    and "total_cycle_count (count_cycle ?p2) = 2"
    by (simp_all add: count_cycle_def Let_def init_state_def)
  ultimately show ?thesis using r by blast
qed

section \<open>The input side of the io mapping\<close>

lemma popped_by_refl:
  assumes "\<And>i. f i = 0"
  shows "popped_by f ins ins"
  using assms by (simp add: popped_by_def)

lemma popped_by_compose:
  assumes "popped_by f a b" and "popped_by g b c" and "\<And>i. h i = f i + g i"
  shows "popped_by h a c"
proof -
  from assms(1,2) have l: "length c = length a" by (simp add: popped_by_def)
  have "c ! i = (fst (a ! i), drop (h i) (snd (a ! i)))" if i: "i < length a" for i
  proof -
    from assms(1) i have b: "b ! i = (fst (a ! i), drop (f i) (snd (a ! i)))"
      by (simp add: popped_by_def)
    from assms(1,2) i have "c ! i = (fst (b ! i), drop (g i) (snd (b ! i)))"
      by (simp add: popped_by_def)
    with b assms(3) [of i] show ?thesis by (simp add: add.commute)
  qed
  with l show ?thesis by (simp add: popped_by_def)
qed

lemma readable_accepted:
  assumes "ready_and_valid s (inp @ sname) = Inr a"
  shows "readable s sname inp" and "a = accepted s sname inp"
  using assms ready_and_valid_iff [OF assms]
  by (simp_all add: readable_def accepted_def)

lemma not_readable:
  assumes "ready_and_valid s (inp @ sname) = Inl e"
  shows "\<not> readable s sname inp"
  using assms by (simp add: readable_def)

lemma read_inputs_length: "length (snd (read_inputs s sname ins)) = length ins"
  by (induction ins) (auto split: sum.splits prod.splits)

lemma read_inputs_nth:
  assumes "i < length ins"
  shows "snd (read_inputs s sname ins) ! i =
           (fst (ins ! i),
            drop (if i < length (takeWhile (readable s sname) (map fst ins)) \<and>
                     accepted s sname (fst (ins ! i)) then 1 else 0)
                 (snd (ins ! i)))"
  using assms
proof (induction ins arbitrary: i)
  case Nil
  then show ?case by simp
next
  case (Cons p ins)
  obtain inp q where p: "p = (inp, q)" by (cases p)
  show ?case
  proof (cases "ready_and_valid s (inp @ sname)")
    case (Inl e)
    from not_readable [OF Inl] Inl p show ?thesis by simp
  next
    case (Inr a)
    note ra = readable_accepted [OF Inr]
    obtain r2 rest' where r2: "read_inputs s sname ins = (r2, rest')"
      by (cases "read_inputs s sname ins")
    show ?thesis
    proof (cases i)
      case 0
      with Inr ra p r2 show ?thesis by simp
    next
      case (Suc j)
      with Cons.prems have "j < length ins" by simp
      from Cons.IH [OF this] r2 Inr ra(1) p Suc show ?thesis by simp
    qed
  qed
qed

lemma read_inputs_popped:
  "popped_by (\<lambda>i. if i < length (takeWhile (readable s sname) (map fst ins)) \<and>
                      accepted s sname (fst (ins ! i)) then 1 else 0)
             ins (snd (read_inputs s sname ins))"
  by (simp add: popped_by_def read_inputs_length read_inputs_nth)

lemma body_tail_inputs:
  assumes "sequence [read_phase_outputs sname, write_prep sname,
                     (\<lambda>st. on_sim (toggle_pos_edge D ''ap_clk'' (signals_to_write st)) st),
                     on_sim (run_hook hook_postclk)] st = (r, st')"
  shows "io_inputs st' = io_inputs st"
proof (rule sequence_rel [where R = "\<lambda>a b. io_inputs b = io_inputs a", OF _ _ _ assms])
  show "io_inputs s = io_inputs s" for s :: "'a rtlsim" by simp
  show "io_inputs b = io_inputs a \<Longrightarrow> io_inputs c = io_inputs b \<Longrightarrow>
        io_inputs c = io_inputs a" for a b c :: "'a rtlsim"
    by simp
  fix m and s s' :: "'a rtlsim" and r
  assume "m \<in> set [read_phase_outputs sname, write_prep sname,
           (\<lambda>st. on_sim (toggle_pos_edge D ''ap_clk'' (signals_to_write st)) st),
           on_sim (run_hook hook_postclk)]"
     and "m s = (r, s')"
  then show "io_inputs s' = io_inputs s"
    by (auto simp: read_phase_outputs_def write_prep_def
          split: prod.splits dest!: on_sim_result)
qed

lemma cycle_inputs:
  "io_inputs (snd (cycle D hook_preclk hook_postclk sname st)) =
     (case read_handle D hook_preclk st of
        None \<Rightarrow> io_inputs st
      | Some s1 \<Rightarrow> snd (read_inputs s1 sname (io_inputs st)))"
proof -
  let ?tail = "sequence [read_phase_outputs sname, write_prep sname,
                 (\<lambda>st. on_sim (toggle_pos_edge D ''ap_clk'' (signals_to_write st)) st),
                 on_sim (run_hook hook_postclk)]"
  obtain r0 s0 where h: "run_hook hook_preclk (xsim st) = (r0, s0)"
    by (cases "run_hook hook_preclk (xsim st)")
  show ?thesis
  proof (cases r0)
    case (Inl e)
    with h show ?thesis
      by (simp add: cycle_def pbind_def on_sim_def read_handle_def)
  next
    case u0: (Inr u0)
    obtain r1 s1 where n: "toggle_neg_edge D ''ap_clk'' s0 = (r1, s1)"
      by (cases "toggle_neg_edge D ''ap_clk'' s0")
    show ?thesis
    proof (cases r1)
      case (Inl e)
      with h u0 n show ?thesis
        by (simp add: cycle_def pbind_def on_sim_def read_handle_def)
    next
      case u1: (Inr u1)
      from h u0 n u1 have rh: "read_handle D hook_preclk st = Some s1"
        by (simp add: read_handle_def)
      obtain r2 ins' where ri: "read_inputs s1 sname (io_inputs st) = (r2, ins')"
        by (cases "read_inputs s1 sname (io_inputs st)")
      let ?st3 = "st\<lparr>xsim := s1, io_inputs := ins'\<rparr>"
      show ?thesis
      proof (cases r2)
        case (Inl e)
        with h u0 n u1 ri rh show ?thesis
          by (simp add: cycle_def pbind_def on_sim_def read_phase_inputs_def)
      next
        case u2: (Inr u2)
        obtain r st' where t: "?tail ?st3 = (r, st')" by (cases "?tail ?st3")
        from h u0 n u1 ri u2 t
        have "cycle D hook_preclk hook_postclk sname st = (r, st')"
          by (simp add: cycle_def pbind_def on_sim_def read_phase_inputs_def)
        with body_tail_inputs [OF t] ri rh show ?thesis by simp
      qed
    qed
  qed
qed

lemma pass_popped:
  "popped_by (pass_pops D hook_preclk sname st) (io_inputs st)
     (io_inputs (snd (cycle D hook_preclk hook_postclk sname st)))"
proof (cases "read_handle D hook_preclk st")
  case None
  then show ?thesis
    by (simp add: cycle_inputs popped_by_def pass_pops_def)
next
  case (Some s1)
  from read_inputs_popped [of s1 sname "io_inputs st"] Some show ?thesis
    by (simp add: cycle_inputs popped_by_def pass_pops_def)
qed

lemma count_cycle_inputs: "io_inputs (count_cycle st) = io_inputs st"
  by (simp add: count_cycle_def Let_def)

lemma run_popped:
  assumes "continue_cycles D hook_preclk hook_postclk sname target t n st = Some st_n"
  shows "popped_by (run_pops D hook_preclk hook_postclk sname (Suc n) st) (io_inputs st)
           (io_inputs (snd (cycle D hook_preclk hook_postclk sname st_n)))"
  using assms
proof (induction n arbitrary: st)
  case 0
  then have "st_n = st" by simp
  with pass_popped [of D hook_preclk sname st hook_postclk] show ?case
    by (simp add: popped_by_def)
next
  case (Suc n)
  from Suc.prems
  have r: "continue_cycles D hook_preclk hook_postclk sname target t n
             (next_pass D hook_preclk hook_postclk sname st) = Some st_n"
    by (auto split: if_splits)
  have 1: "popped_by (pass_pops D hook_preclk sname st) (io_inputs st)
             (io_inputs (next_pass D hook_preclk hook_postclk sname st))"
    using pass_popped [of D hook_preclk sname st hook_postclk]
    by (simp add: next_pass_def count_cycle_inputs)
  show ?case
    by (rule popped_by_compose [OF 1 Suc.IH [OF r]]) simp
qed

lemma loop_end_inputs:
  assumes "\<not> continues D hook_preclk hook_postclk sname target t st"
  shows "\<exists>res st'. rtlsim_loop D hook_preclk hook_postclk sname target t st = Some (res, st') \<and>
           io_inputs st' = io_inputs (snd (cycle D hook_preclk hook_postclk sname st))"
proof -
  obtain r st1 where c: "cycle D hook_preclk hook_postclk sname st = (r, st1)"
    by (cases "cycle D hook_preclk hook_postclk sname st")
  from loop_ends [OF assms] c show ?thesis
    by (cases r) (simp_all add: count_cycle_inputs)
qed

lemma run_end_popped:
  assumes "continue_cycles D hook_preclk hook_postclk sname target t n st = Some st_n"
      and "\<not> continues D hook_preclk hook_postclk sname target t st_n"
  shows "\<exists>res st'. rtlsim_loop D hook_preclk hook_postclk sname target t st = Some (res, st') \<and>
           popped_by (run_pops D hook_preclk hook_postclk sname (Suc n) st) (io_inputs st)
             (io_inputs st')"
  using loop_end_inputs [OF assms(2)] loop_after_passes [OF assms(1)] run_popped [OF assms(1)]
  by auto

lemma read_inputs_all_readable:
  assumes "read_inputs s sname ins = (Inr u, ins')"
  shows "takeWhile (readable s sname) (map fst ins) = map fst ins"
  using assms
proof (induction ins arbitrary: ins')
  case Nil
  then show ?case by simp
next
  case (Cons p ins)
  obtain inp q where p: "p = (inp, q)" by (cases p)
  from Cons.prems p obtain a where a: "ready_and_valid s (inp @ sname) = Inr a"
    by (cases "ready_and_valid s (inp @ sname)") auto
  obtain r2 rest' where r2: "read_inputs s sname ins = (r2, rest')"
    by (cases "read_inputs s sname ins")
  with Cons.prems p a have "r2 = Inr u" by simp
  with Cons.IH r2 readable_accepted(1) [OF a] p show ?case by simp
qed

lemma completed_pass_pops:
  assumes "cycle D hook_preclk hook_postclk sname st = (Inr u, st')"
  shows "\<exists>s1. read_handle D hook_preclk st = Some s1 \<and>
           (\<forall>i < length (io_inputs st).
              pass_pops D hook_preclk sname st i =
                (if accepted s1 sname (fst (io_inputs st ! i)) then 1 else 0))"
proof -
  from assms have "cycle D hook_preclk hook_postclk sname st = (Inr (), st')" by simp
  from cycle_success [OF this] obtain s0 s1 ins' where
    h0: "run_hook hook_preclk (xsim st) = (Inr (), s0)" and
    h1: "toggle_neg_edge D ''ap_clk'' s0 = (Inr (), s1)" and
    h2: "read_inputs s1 sname (io_inputs st) = (Inr (), ins')"
    by (elim exE conjE) (rule that; assumption)
  from h0 h1 have rh: "read_handle D hook_preclk st = Some s1"
    by (simp add: read_handle_def)
  from read_inputs_all_readable [OF h2]
  have "length (takeWhile (readable s1 sname) (map fst (io_inputs st))) = length (io_inputs st)"
    by (simp only: length_map)
  with rh show ?thesis by (simp add: pass_pops_def)
qed

text \<open>
  Claim C10. The input side of the io mapping is part of the state the engine leaves
  behind, on return and on failure, and it holds exactly the words not consumed.
  \<open>pass_pops st i\<close> is the number of transfers (0 or 1) accepted on the \<open>i\<close>-th input
  channel in the pass that starts in \<open>st\<close>, read off the handle the falling edge
  leaves; \<open>run_pops m st0 i\<close> adds these up over the first \<open>m\<close> passes of a run.
  \<^item> Every pass of the loop body, completed or interrupted by an exception, leaves
    the \<open>i\<close>-th queue of the mapping without its first \<open>pass_pops st i\<close> words, and the
    channels as they were.
  \<^item> In a pass that completes, \<open>pass_pops st i\<close> is 1 exactly when \<^verbatim>\<open>TREADY\<close> and
    \<^verbatim>\<open>TVALID\<close> of that channel both read 1 after the falling edge.
  \<^item> A run of the engine in which \<open>n\<close> passes go on and the next one ends the loop
    (by success, stall or any exception) ends with the \<open>i\<close>-th queue being the
    caller's queue without its first \<open>run_pops (n + 1) st0 i\<close> words: one word less
    per accepted transfer, whatever the result.
  \<^item> Every run that ends is of this kind, or failed while raising \<^verbatim>\<open>TREADY\<close> of the
    outputs before the loop, in which case the mapping holds the caller's queues.
\<close>

theorem input_queues_consumed_in_place:
  "(\<forall>(st :: 'd rtlsim).
      popped_by (pass_pops D hook_preclk sname st) (io_inputs st)
        (io_inputs (snd (cycle D hook_preclk hook_postclk sname st)))) \<and>
   (\<forall>(st :: 'd rtlsim) u st'.
      cycle D hook_preclk hook_postclk sname st = (Inr u, st') \<longrightarrow>
      (\<exists>s1. read_handle D hook_preclk st = Some s1 \<and>
         (\<forall>i < length (io_inputs st).
            pass_pops D hook_preclk sname st i =
              (if accepted s1 sname (fst (io_inputs st ! i)) then 1 else 0)))) \<and>
   (\<forall>sim ins outs u (st0 :: 'd rtlsim) n st_n.
      setup_outputs sname (init_state sim ins outs) = (Inr u, st0) \<and>
      continue_cycles D hook_preclk hook_postclk sname target t n st0 = Some st_n \<and>
      \<not> continues D hook_preclk hook_postclk sname target t st_n \<longrightarrow>
      (\<exists>res st'.
         rtlsim_multi_io D sim ins outs target sname t hook_preclk hook_postclk
           = Some (res, st') \<and>
         popped_by (run_pops D hook_preclk hook_postclk sname (Suc n) st0) ins
           (io_inputs st'))) \<and>
   (\<forall>sim ins outs e (st0 :: 'd rtlsim).
      setup_outputs sname (init_state sim ins outs) = (Inl e, st0) \<longrightarrow>
      rtlsim_multi_io D sim ins outs target sname t hook_preclk hook_postclk
        = Some (Inl e, st0) \<and>
      io_inputs st0 = ins) \<and>
   (\<forall>sim ins outs res (st' :: 'd rtlsim).
      rtlsim_multi_io D sim ins outs target sname t hook_preclk hook_postclk
        = Some (res, st') \<longrightarrow>
      (\<exists>r0 st0.
         setup_outputs sname (init_state sim ins outs) = (r0, st0) \<and>
         ((\<exists>e. r0 = Inl e \<and> res = Inl e \<and> st' = st0 \<and> io_inputs st' = ins) \<or>
          (\<exists>u n st_n.
             r0 = Inr u \<and>
             continue_cycles D hook_preclk hook_postclk sname target t n st0 = Some st_n \<and>
             \<not> continues D hook_preclk hook_postclk sname target t st_n \<and>
             popped_by (run_pops D hook_preclk hook_postclk sname (Suc n) st0) ins
               (io_inputs st')))))"
proof (intro conjI allI impI)
  fix st :: "'d rtlsim"
  show "popped_by (pass_pops D hook_preclk sname st) (io_inputs st)
          (io_inputs (snd (cycle D hook_preclk hook_postclk sname st)))"
    by (rule pass_popped)
next
  fix st :: "'d rtlsim" and u st'
  assume "cycle D hook_preclk hook_postclk sname st = (Inr u, st')"
  then show "\<exists>s1. read_handle D hook_preclk st = Some s1 \<and>
           (\<forall>i < length (io_inputs st).
              pass_pops D hook_preclk sname st i =
                (if accepted s1 sname (fst (io_inputs st ! i)) then 1 else 0))"
    by (rule completed_pass_pops)
next
  fix sim :: "'d xsi" and ins outs u and st0 :: "'d rtlsim" and n st_n
  assume a: "setup_outputs sname (init_state sim ins outs) = (Inr u, st0) \<and>
      continue_cycles D hook_preclk hook_postclk sname target t n st0 = Some st_n \<and>
      \<not> continues D hook_preclk hook_postclk sname target t st_n"
  then have s: "setup_outputs sname (init_state sim ins outs) = (Inr u, st0)"
    and p: "continue_cycles D hook_preclk hook_postclk sname target t n st0 = Some st_n"
    and e: "\<not> continues D hook_preclk hook_postclk sname target t st_n"
    by simp_all
  from run_end_popped [OF p e] setup_outputs_counters [OF s] s
  show "\<exists>res st'.
         rtlsim_multi_io D sim ins outs target sname t hook_preclk hook_postclk
           = Some (res, st') \<and>
         popped_by (run_pops D hook_preclk hook_postclk sname (Suc n) st0) ins
           (io_inputs st')"
    by (simp add: rtlsim_multi_io_def)
next
  fix sim :: "'d xsi" and ins outs e and st0 :: "'d rtlsim"
  assume s: "setup_outputs sname (init_state sim ins outs) = (Inl e, st0)"
  then show "rtlsim_multi_io D sim ins outs target sname t hook_preclk hook_postclk
               = Some (Inl e, st0)"
    by (simp add: rtlsim_multi_io_def)
  from setup_outputs_counters [OF s] show "io_inputs st0 = ins" by simp
next
  fix sim :: "'d xsi" and ins outs res and st' :: "'d rtlsim"
  assume m: "rtlsim_multi_io D sim ins outs target sname t hook_preclk hook_postclk
               = Some (res, st')"
  obtain r0 st0 where s: "setup_outputs sname (init_state sim ins outs) = (r0, st0)"
    by (cases "setup_outputs sname (init_state sim ins outs)")
  note c = setup_outputs_counters [OF s]
  show "\<exists>r0 st0.
         setup_outputs sname (init_state sim ins outs) = (r0, st0) \<and>
         ((\<exists>e. r0 = Inl e \<and> res = Inl e \<and> st' = st0 \<and> io_inputs st' = ins) \<or>
          (\<exists>u n st_n.
             r0 = Inr u \<and>
             continue_cycles D hook_preclk hook_postclk sname target t n st0 = Some st_n \<and>
             \<not> continues D hook_preclk hook_postclk sname target t st_n \<and>
             popped_by (run_pops D hook_preclk hook_postclk sname (Suc n) st0) ins
               (io_inputs st')))"
  proof (cases r0)
    case (Inl e)
    with m s have "res = Inl e" and "st' = st0" by (simp_all add: rtlsim_multi_io_def)
    with c s Inl show ?thesis by simp
  next
    case (Inr u)
    with m s
    have l: "rtlsim_loop D hook_preclk hook_postclk sname target t st0 = Some (res, st')"
      by (simp add: rtlsim_multi_io_def)
    from loop_passes_exist [OF l] obtain n st_n where
      p: "continue_cycles D hook_preclk hook_postclk sname target t n st0 = Some st_n" and
      e: "\<not> continues D hook_preclk hook_postclk sname target t st_n"
      by blast
    from run_end_popped [OF p e] l c
    have "popped_by (run_pops D hook_preclk hook_postclk sname (Suc n) st0) ins
            (io_inputs st')"
      by auto
    with s Inr p e show ?thesis by blast
  qed
qed

lemma sink_passes:
  "\<exists>st2. continue_cycles idle_dut None None ''_V_V_'' 1 3 (Suc (Suc 0))
           (init_state sim_sink [(''in0'', [5, 7, 6])] []) = Some st2 \<and>
         \<not> continues idle_dut None None ''_V_V_'' 1 3 st2"
  by (simp add: continues_def next_pass_def engine_eval signal_eval idle_dut_def
        init_state_def sim_sink_def sink_ports_def count_cycle_def)

lemma sink_pops:
  "run_pops idle_dut None None ''_V_V_'' (Suc (Suc (Suc 0)))
     (init_state sim_sink [(''in0'', [5, 7, 6])] []) 0 = 2"
  by (simp add: pass_pops_def read_handle_def readable_def accepted_def next_pass_def
        engine_eval signal_eval idle_dut_def init_state_def sim_sink_def sink_ports_def
        count_cycle_def)

text \<open>
  The sink handle with \<^verbatim>\<open>TVALID\<close> low at first, the queue 5, 7, 6, target 1 and
  threshold 3: the first pass accepts nothing and stages \<^verbatim>\<open>TVALID\<close>, the second and the
  third accept one word each, and the third ends the run. Two transfers were
  accepted, and the mapping the engine leaves holds the one word not consumed.
\<close>

theorem input_queues_consumed_in_place_witness:
  "\<exists>res st'. rtlsim_multi_io idle_dut sim_sink [(''in0'', [5, 7, 6])] [] 1 ''_V_V_'' 3 None None
           = Some (res, st') \<and>
         run_pops idle_dut None None ''_V_V_'' 3
           (init_state sim_sink [(''in0'', [5, 7, 6])] []) 0 = 2 \<and>
         io_inputs st' = [(''in0'', [6])]"
proof -
  let ?st0 = "init_state sim_sink [(''in0'', [5, 7, 6])] []"
  from sink_passes obtain st2 where
    p: "continue_cycles idle_dut None None ''_V_V_'' 1 3 2 ?st0 = Some st2" and
    e: "\<not> continues idle_dut None None ''_V_V_'' 1 3 st2"
    by (auto simp: numeral_2_eq_2)
  have s: "setup_outputs ''_V_V_'' ?st0 = (Inr (), ?st0)"
    by (simp add: setup_outputs_def on_sim_def init_state_def succeed_def)
  have n: "run_pops idle_dut None None ''_V_V_'' 3 ?st0 0 = 2"
    using sink_pops by (simp add: numeral_3_eq_3)
  from input_queues_consumed_in_place [where D = idle_dut and hook_preclk = None
         and hook_postclk = None and sname = "''_V_V_''" and target = 1 and t = 3,
         THEN conjunct2, THEN conjunct2, THEN conjunct1, rule_format,
         of sim_sink "[(''in0'', [5, 7, 6])]" "[]" "()" ?st0 2 st2] s p e
  obtain res st' where
    m: "rtlsim_multi_io idle_dut sim_sink [(''in0'', [5, 7, 6])] [] 1 ''_V_V_'' 3 None None
          = Some (res, st')" and
    q: "popped_by (run_pops idle_dut None None ''_V_V_'' 3 ?st0) [(''in0'', [5, 7, 6])]
          (io_inputs st')"
    by (auto simp: numeral_3_eq_3)
  from q n have "length (io_inputs st') = 1" and "io_inputs st' ! 0 = (''in0'', [6])"
    by (simp_all add: popped_by_def)
  then have "io_inputs st' = [(''in0'', [6])]"
    by (cases "io_inputs st'") simp_all
  with m n show ?thesis by blast
qed

end
